theory Spec2Isabelle
  imports Complex_Main
begin

section \<open>Deviation bounds of \<open>arc.cc\<close>\<close>

text \<open>
  The C++ source computes on \<open>double\<close>. The functions are read in exact arithmetic,
  every \<open>double\<close> a real number: that reading describes the arithmetic the code is
  written to perform, and says nothing about rounding, infinities or NaN. Divisions are
  tracked explicitly, so that a zero divisor shows up as an error value instead of
  HOL's \<open>x / 0 = 0\<close>. For \<open>max_dev\<close> there is a second reading, \<open>max_dev_binary64\<close>, in
  which every operation rounds its result to the nearest binary64 number as the
  machine does; the two readings differ.
\<close>

subsection \<open>Macros and library calls used by the source\<close>

text \<open>glib's \<open>MAX (a, b)\<close> is \<open>((a) > (b)) ? (a) : (b)\<close> and \<open>MIN (a, b)\<close> is
  \<open>((a) < (b)) ? (a) : (b)\<close>; \<open>fabs\<close> is the absolute value.\<close>

definition g_MAX :: "real \<Rightarrow> real \<Rightarrow> real" where
  "g_MAX a b = (if a > b then a else b)"

definition g_MIN :: "real \<Rightarrow> real \<Rightarrow> real" where
  "g_MIN a b = (if a < b then a else b)"

definition fabs :: "real \<Rightarrow> real" where
  "fabs x = \<bar>x\<bar>"

definition MAX_ITERS :: nat where
  "MAX_ITERS = 20"

definition EPSILON :: real where
  "EPSILON = 1"

subsection \<open>\<open>max_dev_approx\<close>\<close>

definition max_dev_approx :: "real \<Rightarrow> real \<Rightarrow> real" where
  "max_dev_approx d0 d1 =
     (let d0 = fabs d0;
          d1 = fabs d1;
          e0 = 3 / 4 * g_MAX d0 d1;
          e1 = 4 / 9 * (d0 + d1)
      in g_MIN e0 e1)"

subsection \<open>\<open>max_dev\<close>\<close>

datatype error = DivisionByZero | EmptyDeque

definition checked_div :: "real \<Rightarrow> real \<Rightarrow> error + real" where
  "checked_div a b = (if b = 0 then Inl DivisionByZero else Inr (a / b))"

text \<open>The blending function whose absolute value the loop of \<open>max_dev\<close> maximises
  (the argument of \<open>fabs\<close> in the loop body).\<close>

definition blend :: "real \<Rightarrow> real \<Rightarrow> real \<Rightarrow> real" where
  "blend d0 d1 t = 3 * t * (1 - t) * (d0 * (1 - t) + d1 * t)"

text \<open>The array \<open>candidates\<close> once the case analysis has filled it: the first
  \<open>num_candidates\<close> entries, in order.\<close>

definition max_dev_candidates :: "real \<Rightarrow> real \<Rightarrow> error + real list" where
  "max_dev_candidates d0 d1 =
     (if d0 = d1 then Inr [0, 1, 1 / 2]
      else
        let delta = d0 * d0 - d0 * d1 + d1 * d1 in
        case checked_div 1 (3 * (d0 - d1)) of
          Inl e \<Rightarrow> Inl e
        | Inr t2 \<Rightarrow>
            let t0 = (2 * d0 - d1) * t2 in
            if delta = 0 then Inr [0, 1, t0]
            else if delta > 0 then
              (let t1 = sqrt delta * t2 in Inr [0, 1, t0 - t1, t0 + t1])
            else Inr [0, 1])"

text \<open>The loop over the candidates: \<open>e\<close> is the running maximum, a candidate outside
  \<open>[0, 1]\<close> is skipped by \<open>continue\<close>.\<close>

fun max_dev_loop :: "real \<Rightarrow> real \<Rightarrow> real list \<Rightarrow> real \<Rightarrow> real" where
  "max_dev_loop d0 d1 [] e = e"
| "max_dev_loop d0 d1 (t # ts) e =
     (if t < 0 \<or> t > 1 then max_dev_loop d0 d1 ts e
      else max_dev_loop d0 d1 ts (g_MAX e (fabs (blend d0 d1 t))))"

definition max_dev :: "real \<Rightarrow> real \<Rightarrow> error + real" where
  "max_dev d0 d1 =
     (case max_dev_candidates d0 d1 of
        Inl e \<Rightarrow> Inl e
      | Inr cs \<Rightarrow> Inr (max_dev_loop d0 d1 cs 0))"

text \<open>The values of the candidates that lie in \<open>[0, 1]\<close>, in the order of the loop.\<close>

definition in_range_vals :: "real \<Rightarrow> real \<Rightarrow> real list \<Rightarrow> real list" where
  "in_range_vals d0 d1 cs = map (\<lambda>t. \<bar>blend d0 d1 t\<bar>) (filter (\<lambda>t. 0 \<le> t \<and> t \<le> 1) cs)"

subsection \<open>\<open>max_dev\<close> on binary64 numbers\<close>

text \<open>
  Rounding to the nearest binary64 number, ties to even: the magnitude is scaled by
  powers of two into \<open>[2^52, 2^53)\<close>, rounded to an integer, ties to the even one, and
  scaled back. The exponent range is not bounded: overflow to an infinity and gradual
  underflow are not modelled, and the values below stay far inside the normal range.
\<close>

function scale_down :: "real \<Rightarrow> real \<Rightarrow> real \<times> real" where
  "scale_down m u = (if 2 ^ 53 \<le> m then scale_down (m / 2) (u * 2) else (m, u))"
  by pat_completeness auto
termination
proof (relation "measure (\<lambda>(m, u). nat \<lfloor>m\<rfloor>)")
  show "wf (measure (\<lambda>(m, u). nat \<lfloor>m\<rfloor>))" by simp
next
  fix m u :: real
  assume m: "2 ^ 53 \<le> m"
  then have m2: "2 \<le> m" by simp
  then have "m / 2 < of_int \<lfloor>m\<rfloor>"
    using real_of_int_floor_gt_diff_one[of m] by linarith
  then have "\<lfloor>m / 2\<rfloor> < \<lfloor>m\<rfloor>" by (simp add: floor_less_iff)
  moreover have "0 < \<lfloor>m\<rfloor>" using m2 by linarith
  ultimately show "((m / 2, u * 2), (m, u)) \<in> measure (\<lambda>(m, u). nat \<lfloor>m\<rfloor>)" by simp
qed

function scale_up :: "real \<Rightarrow> real \<Rightarrow> real \<times> real" where
  "scale_up m u = (if 0 < m \<and> m < 2 ^ 52 then scale_up (m * 2) (u / 2) else (m, u))"
  by pat_completeness auto
termination
proof (relation "measure (\<lambda>(m, u). nat \<lfloor>2 ^ 52 / m\<rfloor>)")
  show "wf (measure (\<lambda>(m, u). nat \<lfloor>2 ^ 52 / m\<rfloor>))" by simp
next
  fix m u :: real
  assume m: "0 < m \<and> m < 2 ^ 52"
  define y where "y = 2 ^ 52 / m"
  have y: "1 < y" using m by (simp add: y_def)
  have "y / 2 < of_int \<lfloor>y\<rfloor>"
  proof (cases "y < 2")
    case True
    with y have "\<lfloor>y\<rfloor> = 1" by linarith
    with True show ?thesis by simp
  next
    case False
    then show ?thesis using real_of_int_floor_gt_diff_one[of y] by linarith
  qed
  then have "\<lfloor>y / 2\<rfloor> < \<lfloor>y\<rfloor>" by (simp add: floor_less_iff)
  moreover have "0 < \<lfloor>y\<rfloor>" using y by linarith
  moreover have "2 ^ 52 / (m * 2) = y / 2" by (simp add: y_def)
  ultimately show "((m * 2, u / 2), (m, u)) \<in> measure (\<lambda>(m, u). nat \<lfloor>2 ^ 52 / m\<rfloor>)"
    by (simp add: y_def)
qed

definition round_even :: "real \<Rightarrow> int" where
  "round_even m =
     (let n = \<lfloor>m\<rfloor>; r = m - of_int n
      in if r < 1 / 2 then n else if r > 1 / 2 then n + 1
         else if even n then n else n + 1)"

definition binary64 :: "real \<Rightarrow> real" where
  "binary64 x =
     (if x = 0 then 0
      else case scale_down \<bar>x\<bar> 1 of (m, u) \<Rightarrow>
           case scale_up m u of (m, u) \<Rightarrow> sgn x * of_int (round_even m) * u)"

text \<open>The operations of the machine: the exact result, rounded. \<open>sqrt\<close> is correctly
  rounded, as IEEE 754 requires.\<close>

definition fl_add :: "real \<Rightarrow> real \<Rightarrow> real" where
  "fl_add a b = binary64 (a + b)"

definition fl_sub :: "real \<Rightarrow> real \<Rightarrow> real" where
  "fl_sub a b = binary64 (a - b)"

definition fl_mul :: "real \<Rightarrow> real \<Rightarrow> real" where
  "fl_mul a b = binary64 (a * b)"

definition fl_div :: "real \<Rightarrow> real \<Rightarrow> error + real" where
  "fl_div a b = (case checked_div a b of Inl e \<Rightarrow> Inl e | Inr q \<Rightarrow> Inr (binary64 q))"

definition fl_sqrt :: "real \<Rightarrow> real" where
  "fl_sqrt a = binary64 (sqrt a)"

text \<open>
  \<open>max_dev\<close> again, statement by statement, with the machine's operations in the order
  in which C++ evaluates them: \<open>d0*d0 - d0*d1 + d1*d1\<close> is \<open>((d0*d0) - (d0*d1)) + (d1*d1)\<close>,
  and the argument of \<open>fabs\<close> is \<open>((3*t) * (1-t)) * ((d0 * (1-t)) + (d1 * t))\<close>.
  The arguments are binary64 numbers; comparisons, \<open>fabs\<close> and \<open>MAX\<close> are exact.
\<close>

definition max_dev_candidates_binary64 :: "real \<Rightarrow> real \<Rightarrow> error + real list" where
  "max_dev_candidates_binary64 d0 d1 =
     (if d0 = d1 then Inr [0, 1, 1 / 2]
      else
        let delta = fl_add (fl_sub (fl_mul d0 d0) (fl_mul d0 d1)) (fl_mul d1 d1) in
        case fl_div 1 (fl_mul 3 (fl_sub d0 d1)) of
          Inl e \<Rightarrow> Inl e
        | Inr t2 \<Rightarrow>
            let t0 = fl_mul (fl_sub (fl_mul 2 d0) d1) t2 in
            if delta = 0 then Inr [0, 1, t0]
            else if delta > 0 then
              (let t1 = fl_mul (fl_sqrt delta) t2 in Inr [0, 1, fl_sub t0 t1, fl_add t0 t1])
            else Inr [0, 1])"

definition blend_binary64 :: "real \<Rightarrow> real \<Rightarrow> real \<Rightarrow> real" where
  "blend_binary64 d0 d1 t =
     fl_mul (fl_mul (fl_mul 3 t) (fl_sub 1 t)) (fl_add (fl_mul d0 (fl_sub 1 t)) (fl_mul d1 t))"

fun max_dev_loop_binary64 :: "real \<Rightarrow> real \<Rightarrow> real list \<Rightarrow> real \<Rightarrow> real" where
  "max_dev_loop_binary64 d0 d1 [] e = e"
| "max_dev_loop_binary64 d0 d1 (t # ts) e =
     (if t < 0 \<or> t > 1 then max_dev_loop_binary64 d0 d1 ts e
      else max_dev_loop_binary64 d0 d1 ts (g_MAX e (fabs (blend_binary64 d0 d1 t))))"

definition max_dev_binary64 :: "real \<Rightarrow> real \<Rightarrow> error + real" where
  "max_dev_binary64 d0 d1 =
     (case max_dev_candidates_binary64 d0 d1 of
        Inl e \<Rightarrow> Inl e
      | Inr cs \<Rightarrow> Inr (max_dev_loop_binary64 d0 d1 cs 0))"

section \<open>The cut search and the refinement of \<open>demo_curve\<close>\<close>

subsection \<open>The curve as the cut search sees it\<close>

text \<open>
  The classes \<open>Vector\<close> and \<open>Bezier\<close> and the geometry behind
  \<open>arc_bezier_error_improved\<close> are declared in \<open>geometry.hh\<close>, outside \<open>arc.cc\<close>. The
  cut search and the refinement use a curve \<open>b\<close> only through three observations, and a
  curve is represented by them:
  \<^item> \<open>segment_error b t0 t1\<close> stands for \<open>arc_bezier_error_improved (b.segment (t0, t1))\<close>;
  \<^item> \<open>tangent b t\<close> stands for \<open>b.tangent (t)\<close>;
  \<^item> \<open>d_tangent b t\<close> stands for \<open>b.d_tangent (t)\<close>.
\<close>

record vector_t =
  dx :: real
  dy :: real

text \<open>Modelled from the spec: \<open>Vector::len\<close> of the absent \<open>geometry.hh\<close>, the length of
  a 2-D displacement.\<close>

definition len :: "vector_t \<Rightarrow> real" where
  "len v = sqrt (dx v * dx v + dy v * dy v)"

record bezier_t =
  segment_error :: "real \<Rightarrow> real \<Rightarrow> real"
  tangent :: "real \<Rightarrow> vector_t"
  d_tangent :: "real \<Rightarrow> vector_t"

subsection \<open>\<open>binary_find_cut_L\<close> and \<open>binary_find_cut_R\<close>\<close>

text \<open>
  The \<open>for\<close> loop of \<open>binary_find_cut_L\<close>, from the value \<open>count\<close> of its counter on.
  The result is the value returned together with the number of loop bodies run, which
  \<open>iters\<close> accumulates. The variable \<open>cut_point\<close> is not initialised before the loop;
  the loop body assigns it before it is read, since \<open>MAX_ITERS\<close> is at least \<open>1\<close>.
\<close>

function bisect_L ::
  "bezier_t \<Rightarrow> real \<Rightarrow> real \<Rightarrow> nat \<Rightarrow> real \<Rightarrow> real \<Rightarrow> real \<Rightarrow> nat \<Rightarrow> real \<times> nat" where
  "bisect_L b i epsilon count low high cut_point iters =
     (if count \<le> MAX_ITERS then
        (let cut_point = (low + high) / 2;
             error = segment_error b i cut_point
         in if error = epsilon then (cut_point, iters + 1)
            else if error < epsilon
              then bisect_L b i epsilon (count + 1) cut_point high cut_point (iters + 1)
              else bisect_L b i epsilon (count + 1) low cut_point cut_point (iters + 1))
      else (cut_point, iters))"
  by pat_completeness auto
termination
  by (relation "measure (\<lambda>(b, i, epsilon, count, low, high, cut_point, iters). MAX_ITERS + 1 - count)")
     auto

definition binary_find_cut_L :: "bezier_t \<Rightarrow> real \<Rightarrow> real \<Rightarrow> real \<times> nat" where
  "binary_find_cut_L b i epsilon =
     (let error = segment_error b i 1
      in if error < epsilon then (1, 0)
         else bisect_L b i epsilon 1 i 1 0 0)"

function bisect_R ::
  "bezier_t \<Rightarrow> real \<Rightarrow> real \<Rightarrow> nat \<Rightarrow> real \<Rightarrow> real \<Rightarrow> real \<Rightarrow> nat \<Rightarrow> real \<times> nat" where
  "bisect_R b j epsilon count low high cut_point iters =
     (if count \<le> MAX_ITERS then
        (let cut_point = (low + high) / 2;
             error = segment_error b cut_point j
         in if error = epsilon then (cut_point, iters + 1)
            else if error < epsilon
              then bisect_R b j epsilon (count + 1) low cut_point cut_point (iters + 1)
              else bisect_R b j epsilon (count + 1) cut_point high cut_point (iters + 1))
      else (cut_point, iters))"
  by pat_completeness auto
termination
  by (relation "measure (\<lambda>(b, j, epsilon, count, low, high, cut_point, iters). MAX_ITERS + 1 - count)")
     auto

definition binary_find_cut_R :: "bezier_t \<Rightarrow> real \<Rightarrow> real \<Rightarrow> real \<times> nat" where
  "binary_find_cut_R b j epsilon =
     (let error = segment_error b 0 j
      in if error < epsilon then (0, 0)
         else bisect_R b j epsilon 1 0 j 0 0)"

subsection \<open>\<open>find_cut_points_L\<close> and \<open>find_cut_points_R\<close>\<close>

text \<open>
  The \<open>while\<close> loops have no iteration cap, so they are partial functions: \<open>None\<close> is
  a loop that never exits. The deque is a list, \<open>push_back\<close> appends and \<open>push_front\<close>
  prepends; \<open>iters\<close> adds up the bisection steps of all the calls.
\<close>

partial_function (option) find_cuts_L_loop ::
  "bezier_t \<Rightarrow> real \<Rightarrow> real \<Rightarrow> real list \<Rightarrow> nat \<Rightarrow> (real list \<times> nat) option" where
  "find_cuts_L_loop b epsilon t left_cuts iters =
     (if t < 1 then
        (case binary_find_cut_L b t epsilon of
           (t', k) \<Rightarrow> find_cuts_L_loop b epsilon t' (left_cuts @ [t']) (iters + k))
      else Some (left_cuts, iters))"

definition find_cut_points_L :: "bezier_t \<Rightarrow> real \<Rightarrow> real list \<Rightarrow> (real list \<times> nat) option" where
  "find_cut_points_L b epsilon left_cuts = find_cuts_L_loop b epsilon 0 left_cuts 0"

partial_function (option) find_cuts_R_loop ::
  "bezier_t \<Rightarrow> real \<Rightarrow> real \<Rightarrow> real list \<Rightarrow> nat \<Rightarrow> (real list \<times> nat) option" where
  "find_cuts_R_loop b epsilon t right_cuts iters =
     (if t > 0 then
        (case binary_find_cut_R b t epsilon of
           (t', k) \<Rightarrow> find_cuts_R_loop b epsilon t' (t' # right_cuts) (iters + k))
      else Some (right_cuts, iters))"

definition find_cut_points_R :: "bezier_t \<Rightarrow> real \<Rightarrow> real list \<Rightarrow> (real list \<times> nat) option" where
  "find_cut_points_R b epsilon right_cuts = find_cuts_R_loop b epsilon 1 right_cuts 0"

subsection \<open>The cut arrays of \<open>demo_curve\<close>\<close>

record cut_arrays =
  cut_low :: "real list"
  cut_high :: "real list"
  cut_point :: "real list"
  arc_error :: "real list"

text \<open>
  The loop that pairs the left and right cuts (\<open>while (!left_cuts.empty())\<close>). Reading
  \<open>front ()\<close> of an empty \<open>right_cuts\<close> is undefined behaviour of the deque and is the
  error \<open>EmptyDeque\<close> here.
\<close>

fun fill_cuts ::
  "bezier_t \<Rightarrow> real list \<Rightarrow> real list \<Rightarrow> nat \<Rightarrow> cut_arrays \<Rightarrow> error + nat \<times> cut_arrays" where
  "fill_cuts b [] right_cuts cut_count a = Inr (cut_count, a)"
| "fill_cuts b (l # left_cuts) [] cut_count a = Inl EmptyDeque"
| "fill_cuts b (l # left_cuts) (r # right_cuts) cut_count a =
     (let a = a\<lparr>cut_low := (cut_low a)[cut_count := r]\<rparr>;
          a = a\<lparr>cut_high := (cut_high a)[cut_count := l]\<rparr>;
          a = a\<lparr>cut_point := (cut_point a)
                [cut_count + 1 := (cut_low a ! cut_count + cut_high a ! cut_count) / 2]\<rparr>;
          a = a\<lparr>arc_error := (arc_error a)
                [cut_count := segment_error b (cut_point a ! cut_count)
                                (cut_point a ! (cut_count + 1))]\<rparr>
      in fill_cuts b left_cuts right_cuts (cut_count + 1) a)"

text \<open>The arrays are declared with their sizes and not initialised; every entry is
  written before it is read, and the model starts them at \<open>0\<close>.\<close>

definition init_cuts :: "bezier_t \<Rightarrow> real list \<Rightarrow> real list \<Rightarrow> error + cut_arrays" where
  "init_cuts b left_cuts right_cuts =
     (let num_cut_ranges = length left_cuts;
          a = \<lparr>cut_low = replicate num_cut_ranges 0,
               cut_high = replicate num_cut_ranges 0,
               cut_point = (replicate (num_cut_ranges + 2) 0)[0 := 0],
               arc_error = replicate (num_cut_ranges + 1) 0\<rparr>
      in case fill_cuts b left_cuts right_cuts 0 a of
           Inl e \<Rightarrow> Inl e
         | Inr (cut_count, a) \<Rightarrow>
             (let a = a\<lparr>cut_point := (cut_point a)[cut_count + 1 := 1]\<rparr>;
                  a = a\<lparr>arc_error := (arc_error a)
                        [cut_count := segment_error b (cut_point a ! cut_count)
                                        (cut_point a ! (cut_count + 1))]\<rparr>
              in Inr a))"

subsection \<open>The refinement pass\<close>

text \<open>
  The division of the curvature is tracked: \<open>curvature_checked\<close> is \<open>DivisionByZero\<close> where
  the tangent has length \<open>0\<close>. The C++ divides all the same, gets a NaN or an infinity
  and carries on, so the loops below are total; they compute with \<open>curvature\<close>, which
  puts \<open>0\<close> in the place of the value the reals do not have. What is stated below about
  the position of a cut point that the refinement has moved is stated for runs no step
  of which divides by zero (\<open>step_ok\<close>). The other divisor, \<open>pow (2, 1 + curvature) *
  EPSILON\<close>, is never \<open>0\<close> in exact arithmetic.
\<close>

definition curvature_checked :: "bezier_t \<Rightarrow> real \<Rightarrow> error + real" where
  "curvature_checked b t =
     (let prime = tangent b t;
          prime2 = d_tangent b t;
          len = len prime
      in checked_div (dy prime2 * dx prime - dx prime2 * dy prime) (len * len * len))"

definition curvature :: "bezier_t \<Rightarrow> real \<Rightarrow> real" where
  "curvature b t = (case curvature_checked b t of Inl e \<Rightarrow> 0 | Inr k \<Rightarrow> k)"

definition step_size :: "bezier_t \<Rightarrow> nat \<Rightarrow> cut_arrays \<Rightarrow> real" where
  "step_size b cut_number a =
     fabs (arc_error a ! (cut_number + 1) - arc_error a ! cut_number)
       / (2 powr (1 + curvature b (cut_point a ! cut_number)) * EPSILON)"

text \<open>One body of the inner loop, for the cut range \<open>cut_number\<close>.\<close>

definition jiggle_step :: "bezier_t \<Rightarrow> nat \<Rightarrow> cut_arrays \<Rightarrow> cut_arrays" where
  "jiggle_step b cut_number a =
     (let step_size = step_size b cut_number a;
          a = (if arc_error a ! (cut_number + 1) > arc_error a ! cut_number
               then a\<lparr>cut_point := (cut_point a)
                      [cut_number + 1 := cut_point a ! (cut_number + 1)
                         - step_size * (cut_point a ! (cut_number + 1) - cut_low a ! cut_number)]\<rparr>
               else a\<lparr>cut_point := (cut_point a)
                      [cut_number + 1 := cut_point a ! (cut_number + 1)
                         + step_size * (cut_high a ! cut_number - cut_point a ! (cut_number + 1))]\<rparr>)
      in a\<lparr>arc_error := (arc_error a)
             [cut_number := segment_error b (cut_point a ! cut_number)
                              (cut_point a ! (cut_number + 1))]\<rparr>)"

function jiggle_inner :: "bezier_t \<Rightarrow> nat \<Rightarrow> nat \<Rightarrow> cut_arrays \<Rightarrow> cut_arrays" where
  "jiggle_inner b num_cut_ranges cut_number a =
     (if cut_number < num_cut_ranges
      then jiggle_inner b num_cut_ranges (cut_number + 1) (jiggle_step b cut_number a)
      else a)"
  by pat_completeness auto
termination
  by (relation "measure (\<lambda>(b, num_cut_ranges, cut_number, a). num_cut_ranges - cut_number)") auto

text \<open>The outer loop, from the value \<open>jiggle_count\<close> of its counter on; \<open>passes\<close> counts
  the passes made over the cut ranges.\<close>

function jiggle_outer ::
  "bezier_t \<Rightarrow> nat \<Rightarrow> nat \<Rightarrow> cut_arrays \<Rightarrow> nat \<Rightarrow> cut_arrays \<times> nat" where
  "jiggle_outer b num_cut_ranges jiggle_count a passes =
     (if jiggle_count < 10
      then jiggle_outer b num_cut_ranges (jiggle_count + 1)
             (jiggle_inner b num_cut_ranges 0 a) (passes + 1)
      else (a, passes))"
  by pat_completeness auto
termination
  by (relation "measure (\<lambda>(b, num_cut_ranges, jiggle_count, a, passes). 10 - jiggle_count)") auto

definition jiggle :: "bezier_t \<Rightarrow> cut_arrays \<Rightarrow> cut_arrays \<times> nat" where
  "jiggle b a = jiggle_outer b (length (cut_low a)) 1 a 0"

text \<open>
  The cut-point part of \<open>demo_curve\<close> for one curve: both searches, \<open>pop_back\<close> and
  \<open>pop_front\<close>, the arrays, and the refinement. \<open>None\<close> is a search that never
  returns. Each search pushes at least one cut before it returns, so \<open>pop_back\<close> and
  \<open>pop_front\<close> never meet an empty deque.
\<close>

definition demo_cuts :: "bezier_t \<Rightarrow> (error + cut_arrays \<times> nat) option" where
  "demo_cuts b =
     (case find_cut_points_L b EPSILON [] of
        None \<Rightarrow> None
      | Some (left_cuts, _) \<Rightarrow>
          (case find_cut_points_R b EPSILON [] of
             None \<Rightarrow> None
           | Some (right_cuts, _) \<Rightarrow>
               (case init_cuts b (butlast left_cuts) (tl right_cuts) of
                  Inl e \<Rightarrow> Some (Inl e)
                | Inr a \<Rightarrow> Some (Inr (jiggle b a)))))"

text \<open>The same up to the arrays as they stand before the refinement.\<close>

definition demo_init :: "bezier_t \<Rightarrow> (error + cut_arrays) option" where
  "demo_init b =
     (case find_cut_points_L b EPSILON [] of
        None \<Rightarrow> None
      | Some (left_cuts, _) \<Rightarrow>
          (case find_cut_points_R b EPSILON [] of
             None \<Rightarrow> None
           | Some (right_cuts, _) \<Rightarrow> Some (init_cuts b (butlast left_cuts) (tl right_cuts))))"

subsection \<open>Conditions under which the refinement keeps the cut points in order\<close>

text \<open>
  The code checks none of the following. A step is in order (\<open>step_ok\<close>) when its
  curvature is defined and its step size is at most \<open>1\<close>; \<open>inner_ok\<close> and \<open>outer_ok\<close>
  follow the two loops of the refinement and say that of every step the run takes,
  each in the state in which the run takes it. The cut ranges are ordered when they lie
  inside \<open>(0, 1)\<close>, are not empty, and each ends before the next begins. The other
  predicates are the invariants of the loops.
\<close>

definition step_ok :: "bezier_t \<Rightarrow> nat \<Rightarrow> cut_arrays \<Rightarrow> bool" where
  "step_ok b cut_number a \<longleftrightarrow>
     curvature_checked b (cut_point a ! cut_number) \<noteq> Inl DivisionByZero
     \<and> step_size b cut_number a \<le> 1"

function inner_ok :: "bezier_t \<Rightarrow> nat \<Rightarrow> nat \<Rightarrow> cut_arrays \<Rightarrow> bool" where
  "inner_ok b num_cut_ranges cut_number a =
     (if cut_number < num_cut_ranges
      then step_ok b cut_number a
         \<and> inner_ok b num_cut_ranges (cut_number + 1) (jiggle_step b cut_number a)
      else True)"
  by pat_completeness auto
termination
  by (relation "measure (\<lambda>(b, num_cut_ranges, cut_number, a). num_cut_ranges - cut_number)") auto

function outer_ok :: "bezier_t \<Rightarrow> nat \<Rightarrow> nat \<Rightarrow> cut_arrays \<Rightarrow> bool" where
  "outer_ok b num_cut_ranges jiggle_count a =
     (if jiggle_count < 10
      then inner_ok b num_cut_ranges 0 a
         \<and> outer_ok b num_cut_ranges (jiggle_count + 1) (jiggle_inner b num_cut_ranges 0 a)
      else True)"
  by pat_completeness auto
termination
  by (relation "measure (\<lambda>(b, num_cut_ranges, jiggle_count, a). 10 - jiggle_count)") auto

definition steps_at_most_one :: "bezier_t \<Rightarrow> cut_arrays \<Rightarrow> bool" where
  "steps_at_most_one b a = outer_ok b (length (cut_low a)) 1 a"

definition ranges_ordered :: "cut_arrays \<Rightarrow> bool" where
  "ranges_ordered a \<longleftrightarrow>
     (\<forall>i<length (cut_low a).
        0 < cut_low a ! i \<and> cut_low a ! i \<le> cut_high a ! i \<and> cut_high a ! i < 1
        \<and> (i + 1 < length (cut_low a) \<longrightarrow> cut_high a ! i < cut_low a ! (i + 1)))"

definition well_sized :: "cut_arrays \<Rightarrow> bool" where
  "well_sized a \<longleftrightarrow>
     length (cut_high a) = length (cut_low a)
     \<and> length (cut_point a) = length (cut_low a) + 2
     \<and> length (arc_error a) = length (cut_low a) + 1"

definition midpoints_upto :: "nat \<Rightarrow> cut_arrays \<Rightarrow> bool" where
  "midpoints_upto c a \<longleftrightarrow>
     (\<forall>i<c. cut_point a ! (i + 1) = (cut_low a ! i + cut_high a ! i) / 2)"

definition within_ranges :: "cut_arrays \<Rightarrow> bool" where
  "within_ranges a \<longleftrightarrow>
     (\<forall>i<length (cut_low a).
        cut_low a ! i \<le> cut_point a ! (i + 1) \<and> cut_point a ! (i + 1) \<le> cut_high a ! i)"

subsection \<open>Example curves\<close>

text \<open>
  A curve whose error estimate accumulates along two stretches of the parameter range:
  \<open>8\<close> per unit of parameter on \<open>[1/2, 5/8]\<close> and \<open>2\<close> per unit on \<open>[3/4, 1]\<close>. The
  estimate of a segment is monotone in the segment and vanishes on short segments away
  from the two stretches. The tangent is a unit vector and the curvature is the
  constant \<open>k\<close>.
\<close>

definition overlap :: "real \<Rightarrow> real \<Rightarrow> real \<Rightarrow> real \<Rightarrow> real" where
  "overlap t0 t1 u0 u1 = max 0 (min t1 u1 - max t0 u0)"

definition bump_error :: "real \<Rightarrow> real \<Rightarrow> real" where
  "bump_error t0 t1 = 8 * overlap t0 t1 (1 / 2) (5 / 8) + 2 * overlap t0 t1 (3 / 4) 1"

definition bump_curve :: "real \<Rightarrow> bezier_t" where
  "bump_curve k =
     \<lparr>segment_error = bump_error,
      tangent = (\<lambda>t. \<lparr>dx = 1, dy = 0\<rparr>),
      d_tangent = (\<lambda>t. \<lparr>dx = 0, dy = k\<rparr>)\<rparr>"

text \<open>The arrays of \<open>demo_curve\<close> for \<open>bump_curve\<close>, as they stand before the refinement.\<close>

definition bump_cuts :: cut_arrays where
  "bump_cuts =
     \<lparr>cut_low = [9 / 16], cut_high = [3 / 4],
      cut_point = [0, 21 / 32, 1], arc_error = [1, 1 / 2]\<rparr>"

section \<open>Properties of the deviation bounds\<close>

declare bisect_L.simps [simp del] bisect_R.simps [simp del]
  jiggle_inner.simps [simp del] jiggle_outer.simps [simp del]
  inner_ok.simps [simp del] outer_ok.simps [simp del]
  scale_down.simps [simp del] scale_up.simps [simp del]

lemma g_MAX_max: "g_MAX a b = max a b"
  by (simp add: g_MAX_def max_def)

lemma g_MIN_min: "g_MIN a b = min a b"
  by (simp add: g_MIN_def min_def)

text \<open>
  Claim C8. For all real \<open>d0\<close>, \<open>d1\<close> the fast approximation returns
  \<open>min (3/4 * max |d0| |d1|) (4/9 * (|d0| + |d1|))\<close>, and it returns \<open>0\<close> at
  \<open>d0 = d1 = 0\<close>.
\<close>

theorem max_dev_approx_closed_form:
  "max_dev_approx d0 d1 = min (3 / 4 * max \<bar>d0\<bar> \<bar>d1\<bar>) (4 / 9 * (\<bar>d0\<bar> + \<bar>d1\<bar>))
   \<and> max_dev_approx 0 0 = 0"
  by (simp add: max_dev_approx_def Let_def g_MAX_max g_MIN_min fabs_def)

subsection \<open>The loop of \<open>max_dev\<close> computes a maximum over the candidates\<close>

lemma max_dev_loop_fold:
  "max_dev_loop d0 d1 cs e = fold max (in_range_vals d0 d1 cs) e"
  by (induction cs arbitrary: e)
     (auto simp: in_range_vals_def g_MAX_max fabs_def max.commute not_less)

lemma max_dev_loop_Max:
  "max_dev_loop d0 d1 cs e = Max (set (e # in_range_vals d0 d1 cs))"
  by (simp only: max_dev_loop_fold Max.set_eq_fold)

lemma max_dev_candidates_total:
  "\<exists>cs. max_dev_candidates d0 d1 = Inr cs"
  by (auto simp: max_dev_candidates_def checked_div_def Let_def)

lemma max_dev_Inr:
  "max_dev_candidates d0 d1 = Inr cs \<Longrightarrow> max_dev d0 d1 = Inr (max_dev_loop d0 d1 cs 0)"
  by (simp add: max_dev_def)

lemma candidates_endpoints:
  "max_dev_candidates d0 d1 = Inr cs \<Longrightarrow> 0 \<in> set cs \<and> 1 \<in> set cs"
  by (auto simp: max_dev_candidates_def checked_div_def Let_def split: if_splits)

lemma candidates_cases:
  "max_dev_candidates d0 d1 =
     Inr ([0, 1] @
       (if d0 = d1 then [1 / 2]
        else if d0 * d0 - d0 * d1 + d1 * d1 = 0 then [(2 * d0 - d1) * (1 / (3 * (d0 - d1)))]
        else if d0 * d0 - d0 * d1 + d1 * d1 > 0 then
          [(2 * d0 - d1) * (1 / (3 * (d0 - d1)))
             - sqrt (d0 * d0 - d0 * d1 + d1 * d1) * (1 / (3 * (d0 - d1))),
           (2 * d0 - d1) * (1 / (3 * (d0 - d1)))
             + sqrt (d0 * d0 - d0 * d1 + d1 * d1) * (1 / (3 * (d0 - d1)))]
        else []))"
  by (simp add: max_dev_candidates_def checked_div_def Let_def)

lemma blend_endpoints: "blend d0 d1 0 = 0" "blend d0 d1 1 = 0"
  by (simp_all add: blend_def)

lemma blend_swap: "blend d0 d1 t = blend d1 d0 (1 - t)"
  by (simp add: blend_def algebra_simps)

subsection \<open>The interior extrema of the blending function are candidates\<close>

lemma blend_deriv:
  "(blend d0 d1 has_real_derivative
      (3 * (d0 + 2 * (d1 - 2 * d0) * t + 3 * (d0 - d1) * t\<^sup>2))) (at t)"
  unfolding blend_def
  by (auto intro!: derivative_eq_intros simp: algebra_simps power2_eq_square)

lemma blend_cont: "continuous_on {0..1} (\<lambda>t. \<bar>blend d0 d1 t\<bar>)"
  unfolding blend_def by (intro continuous_intros)

lemma delta_pos: "d0 \<noteq> d1 \<Longrightarrow> d0 * d0 - d0 * d1 + d1 * d1 > (0::real)"
proof -
  assume "d0 \<noteq> d1"
  have "d0 * d0 - d0 * d1 + d1 * d1 = (d0 - d1 / 2)\<^sup>2 + 3 / 4 * d1\<^sup>2"
    by (simp add: power2_eq_square algebra_simps)
  moreover have "(d0 - d1 / 2)\<^sup>2 + 3 / 4 * d1\<^sup>2 > 0"
  proof (cases "d1 = 0")
    case True
    with \<open>d0 \<noteq> d1\<close> show ?thesis by simp
  next
    case False
    then have "3 / 4 * d1\<^sup>2 > 0" by simp
    moreover have "(d0 - d1 / 2)\<^sup>2 \<ge> 0" by simp
    ultimately show ?thesis by linarith
  qed
  ultimately show ?thesis by simp
qed

lemma quad_roots:
  fixes x :: real
  assumes ne: "d0 \<noteq> d1"
    and eq: "d0 + 2 * (d1 - 2 * d0) * x + 3 * (d0 - d1) * x\<^sup>2 = 0"
  defines "t2 \<equiv> 1 / (3 * (d0 - d1))"
  defines "t0 \<equiv> (2 * d0 - d1) * t2"
  defines "t1 \<equiv> sqrt (d0 * d0 - d0 * d1 + d1 * d1) * t2"
  shows "x = t0 - t1 \<or> x = t0 + t1"
proof -
  have a: "3 * (d0 - d1) \<noteq> 0" using ne by simp
  have dpos: "d0 * d0 - d0 * d1 + d1 * d1 \<ge> 0" using delta_pos[OF ne] by simp
  have "(3 * (d0 - d1) * x - (2 * d0 - d1))\<^sup>2 = d0 * d0 - d0 * d1 + d1 * d1"
  proof -
    have "(3 * (d0 - d1) * x - (2 * d0 - d1))\<^sup>2
        = 3 * (d0 - d1) * (d0 + 2 * (d1 - 2 * d0) * x + 3 * (d0 - d1) * x\<^sup>2)
          + (d0 * d0 - d0 * d1 + d1 * d1)"
      by (simp add: power2_eq_square algebra_simps)
    then show ?thesis using eq by simp
  qed
  then have "(3 * (d0 - d1) * x - (2 * d0 - d1))\<^sup>2 = (sqrt (d0 * d0 - d0 * d1 + d1 * d1))\<^sup>2"
    using dpos by simp
  then have "3 * (d0 - d1) * x - (2 * d0 - d1) = sqrt (d0 * d0 - d0 * d1 + d1 * d1)
      \<or> 3 * (d0 - d1) * x - (2 * d0 - d1) = - sqrt (d0 * d0 - d0 * d1 + d1 * d1)"
    by (simp only: power2_eq_iff)
  then show ?thesis
  proof
    assume "3 * (d0 - d1) * x - (2 * d0 - d1) = sqrt (d0 * d0 - d0 * d1 + d1 * d1)"
    then have "x = ((2 * d0 - d1) + sqrt (d0 * d0 - d0 * d1 + d1 * d1)) / (3 * (d0 - d1))"
      using a by (simp add: field_simps)
    then have "x = t0 + t1" by (simp add: t0_def t1_def t2_def add_divide_distrib)
    then show ?thesis ..
  next
    assume "3 * (d0 - d1) * x - (2 * d0 - d1) = - sqrt (d0 * d0 - d0 * d1 + d1 * d1)"
    then have "x = ((2 * d0 - d1) - sqrt (d0 * d0 - d0 * d1 + d1 * d1)) / (3 * (d0 - d1))"
      using a by (simp add: field_simps)
    then have "x = t0 - t1" by (simp add: t0_def t1_def t2_def diff_divide_distrib)
    then show ?thesis ..
  qed
qed

lemma critical_is_candidate:
  assumes cs: "max_dev_candidates d0 d1 = Inr cs"
    and crit: "d0 + 2 * (d1 - 2 * d0) * x + 3 * (d0 - d1) * x\<^sup>2 = 0"
    and nz: "blend d0 d1 x \<noteq> 0"
  shows "x \<in> set cs"
proof (cases "d0 = d1")
  case True
  with crit have "d0 * (1 - 2 * x) = 0" by (simp add: algebra_simps)
  moreover have "d0 \<noteq> 0" using nz True by (auto simp: blend_def)
  ultimately have "x = 1 / 2" by simp
  with cs True show ?thesis by (auto simp: max_dev_candidates_def)
next
  case False
  from quad_roots[OF False crit] delta_pos[OF False] cs False
  show ?thesis
    by (auto simp: max_dev_candidates_def checked_div_def Let_def)
qed

lemma interior_extremum_critical:
  assumes x: "0 < x" "x < 1"
    and mx: "\<forall>y\<in>{0..1}. \<bar>blend d0 d1 y\<bar> \<le> \<bar>blend d0 d1 x\<bar>"
    and nz: "blend d0 d1 x \<noteq> 0"
  shows "d0 + 2 * (d1 - 2 * d0) * x + 3 * (d0 - d1) * x\<^sup>2 = 0"
proof -
  define r where "r = min x (1 - x)"
  have r: "0 < r" using x by (simp add: r_def)
  have inr: "y \<in> {0..1}" if "\<bar>x - y\<bar> < r" for y
    using that by (auto simp: r_def)
  have "3 * (d0 + 2 * (d1 - 2 * d0) * x + 3 * (d0 - d1) * x\<^sup>2) = 0"
  proof (cases "blend d0 d1 x > 0")
    case True
    have "\<forall>y. \<bar>x - y\<bar> < r \<longrightarrow> blend d0 d1 y \<le> blend d0 d1 x"
    proof (intro allI impI)
      fix y assume "\<bar>x - y\<bar> < r"
      then have "\<bar>blend d0 d1 y\<bar> \<le> \<bar>blend d0 d1 x\<bar>" using mx inr by blast
      with True show "blend d0 d1 y \<le> blend d0 d1 x" by linarith
    qed
    from DERIV_local_max[OF blend_deriv r this] show ?thesis .
  next
    case False
    with nz have neg: "blend d0 d1 x < 0" by simp
    have "\<forall>y. \<bar>x - y\<bar> < r \<longrightarrow> blend d0 d1 x \<le> blend d0 d1 y"
    proof (intro allI impI)
      fix y assume "\<bar>x - y\<bar> < r"
      then have "\<bar>blend d0 d1 y\<bar> \<le> \<bar>blend d0 d1 x\<bar>" using mx inr by blast
      with neg show "blend d0 d1 x \<le> blend d0 d1 y" by linarith
    qed
    from DERIV_local_min[OF blend_deriv r this] show ?thesis .
  qed
  then show ?thesis by simp
qed

subsection \<open>The result of \<open>max_dev\<close> is the maximum over the unit interval\<close>

lemma loop_upper_bound:
  assumes cs: "max_dev_candidates d0 d1 = Inr cs" and t: "0 \<le> t" "t \<le> 1"
  shows "\<bar>blend d0 d1 t\<bar> \<le> max_dev_loop d0 d1 cs 0"
proof -
  let ?e = "max_dev_loop d0 d1 cs 0"
  have e0: "0 \<le> ?e" by (simp add: max_dev_loop_Max)
  have cand: "\<bar>blend d0 d1 c\<bar> \<le> ?e" if "c \<in> set cs" "0 \<le> c" "c \<le> 1" for c
  proof -
    have "\<bar>blend d0 d1 c\<bar> \<in> set (0 # in_range_vals d0 d1 cs)"
      using that by (auto simp: in_range_vals_def)
    then show ?thesis unfolding max_dev_loop_Max by (intro Max_ge) auto
  qed
  have "compact {0..1::real}" "{0..1::real} \<noteq> {}" by auto
  from continuous_attains_sup[OF this blend_cont[of d0 d1]]
  obtain x where x: "x \<in> {0..1}" and mx: "\<forall>y\<in>{0..1}. \<bar>blend d0 d1 y\<bar> \<le> \<bar>blend d0 d1 x\<bar>"
    by blast
  have "\<bar>blend d0 d1 x\<bar> \<le> ?e"
  proof (cases "blend d0 d1 x = 0")
    case True
    with e0 show ?thesis by simp
  next
    case False
    then have "x \<noteq> 0" "x \<noteq> 1" using blend_endpoints by auto
    with x have x01: "0 < x" "x < 1" by auto
    from critical_is_candidate[OF cs interior_extremum_critical[OF x01 mx False] False]
    have "x \<in> set cs" .
    with x01 show ?thesis by (intro cand) auto
  qed
  moreover have "\<bar>blend d0 d1 t\<bar> \<le> \<bar>blend d0 d1 x\<bar>" using mx t by auto
  ultimately show ?thesis by linarith
qed

lemma loop_attained:
  assumes cs: "max_dev_candidates d0 d1 = Inr cs"
  shows "\<exists>t\<in>set cs. 0 \<le> t \<and> t \<le> 1 \<and> max_dev_loop d0 d1 cs 0 = \<bar>blend d0 d1 t\<bar>"
proof -
  have "Max (set (0 # in_range_vals d0 d1 cs)) \<in> set (0 # in_range_vals d0 d1 cs)"
    by (intro Max_in) auto
  then have "max_dev_loop d0 d1 cs 0 \<in> set (0 # in_range_vals d0 d1 cs)"
    by (simp only: max_dev_loop_Max)
  then consider "max_dev_loop d0 d1 cs 0 = 0"
    | "max_dev_loop d0 d1 cs 0 \<in> set (in_range_vals d0 d1 cs)" by auto
  then show ?thesis
  proof cases
    case 1
    with candidates_endpoints[OF cs] blend_endpoints(1)[of d0 d1] show ?thesis
      by (intro bexI[of _ 0]) auto
  next
    case 2
    then show ?thesis by (auto simp: in_range_vals_def)
  qed
qed

lemma loop_Max_set:
  assumes cs: "max_dev_candidates d0 d1 = Inr cs"
  shows "max_dev_loop d0 d1 cs 0
    = Max ((\<lambda>t. \<bar>blend d0 d1 t\<bar>) ` {t \<in> set cs. 0 \<le> t \<and> t \<le> 1})"
proof -
  have "0 \<in> (\<lambda>t. \<bar>blend d0 d1 t\<bar>) ` {t \<in> set cs. 0 \<le> t \<and> t \<le> 1}"
    using candidates_endpoints[OF cs] blend_endpoints(1)[of d0 d1] by force
  then have "insert 0 ((\<lambda>t. \<bar>blend d0 d1 t\<bar>) ` {t \<in> set cs. 0 \<le> t \<and> t \<le> 1})
      = (\<lambda>t. \<bar>blend d0 d1 t\<bar>) ` {t \<in> set cs. 0 \<le> t \<and> t \<le> 1}" by auto
  moreover have "set (0 # in_range_vals d0 d1 cs)
      = insert 0 ((\<lambda>t. \<bar>blend d0 d1 t\<bar>) ` {t \<in> set cs. 0 \<le> t \<and> t \<le> 1})"
    by (auto simp: in_range_vals_def)
  ultimately show ?thesis by (simp only: max_dev_loop_Max)
qed

lemma max_dev_loop_swap_le:
  assumes cs: "max_dev_candidates d0 d1 = Inr cs" and cs': "max_dev_candidates d1 d0 = Inr cs'"
  shows "max_dev_loop d0 d1 cs 0 \<le> max_dev_loop d1 d0 cs' 0"
proof -
  from loop_attained[OF cs] obtain t where t: "0 \<le> t" "t \<le> 1"
    and e: "max_dev_loop d0 d1 cs 0 = \<bar>blend d0 d1 t\<bar>" by blast
  have "\<bar>blend d1 d0 (1 - t)\<bar> \<le> max_dev_loop d1 d0 cs' 0"
    using t by (intro loop_upper_bound[OF cs']) auto
  then show ?thesis using e blend_swap[of d0 d1 t] by simp
qed

lemma max_dev_1_0: "max_dev 1 0 = Inr (4 / 9)"
  by (simp add: max_dev_def max_dev_candidates_def checked_div_def Let_def g_MAX_def
      fabs_def blend_def)

text \<open>
  In exact arithmetic \<open>max_dev\<close> returns the maximum over \<open>t\<close> in \<open>[0, 1]\<close> of
  \<open>|3 t (1 - t) (d0 (1 - t) + d1 t)|\<close>. The candidates are the endpoints \<open>0\<close> and \<open>1\<close>
  and the critical points of the case analysis; the result is the largest absolute
  value of the blending function over the candidates inside \<open>[0, 1]\<close>, it is attained on
  \<open>[0, 1]\<close>, and no point of \<open>[0, 1]\<close> exceeds it. In exact arithmetic the case
  \<open>delta = 0\<close> never arises when \<open>d0\<close> and \<open>d1\<close> differ (\<open>delta_pos\<close>).
\<close>

lemma max_dev_exact_maximum:
  "\<exists>cs e. max_dev_candidates d0 d1 = Inr cs \<and> max_dev d0 d1 = Inr e
     \<and> cs = [0, 1] @
         (if d0 = d1 then [1 / 2]
          else if d0 * d0 - d0 * d1 + d1 * d1 = 0 then [(2 * d0 - d1) * (1 / (3 * (d0 - d1)))]
          else if d0 * d0 - d0 * d1 + d1 * d1 > 0 then
            [(2 * d0 - d1) * (1 / (3 * (d0 - d1)))
               - sqrt (d0 * d0 - d0 * d1 + d1 * d1) * (1 / (3 * (d0 - d1))),
             (2 * d0 - d1) * (1 / (3 * (d0 - d1)))
               + sqrt (d0 * d0 - d0 * d1 + d1 * d1) * (1 / (3 * (d0 - d1)))]
          else [])
     \<and> e = Max ((\<lambda>t. \<bar>blend d0 d1 t\<bar>) ` {t \<in> set cs. 0 \<le> t \<and> t \<le> 1})
     \<and> (\<exists>t\<in>{0..1}. e = \<bar>blend d0 d1 t\<bar>)
     \<and> (\<forall>t\<in>{0..1}. \<bar>blend d0 d1 t\<bar> \<le> e)"
proof -
  obtain cs where cs: "max_dev_candidates d0 d1 = Inr cs"
    using max_dev_candidates_total by blast
  let ?e = "max_dev_loop d0 d1 cs 0"
  have 1: "max_dev d0 d1 = Inr ?e" by (rule max_dev_Inr[OF cs])
  have 2: "cs = [0, 1] @
         (if d0 = d1 then [1 / 2]
          else if d0 * d0 - d0 * d1 + d1 * d1 = 0 then [(2 * d0 - d1) * (1 / (3 * (d0 - d1)))]
          else if d0 * d0 - d0 * d1 + d1 * d1 > 0 then
            [(2 * d0 - d1) * (1 / (3 * (d0 - d1)))
               - sqrt (d0 * d0 - d0 * d1 + d1 * d1) * (1 / (3 * (d0 - d1))),
             (2 * d0 - d1) * (1 / (3 * (d0 - d1)))
               + sqrt (d0 * d0 - d0 * d1 + d1 * d1) * (1 / (3 * (d0 - d1)))]
          else [])"
    using cs unfolding candidates_cases by simp
  have 3: "?e = Max ((\<lambda>t. \<bar>blend d0 d1 t\<bar>) ` {t \<in> set cs. 0 \<le> t \<and> t \<le> 1})"
    by (rule loop_Max_set[OF cs])
  have 4: "\<exists>t\<in>{0..1}. ?e = \<bar>blend d0 d1 t\<bar>"
    using loop_attained[OF cs] by auto
  have 5: "\<forall>t\<in>{0..1}. \<bar>blend d0 d1 t\<bar> \<le> ?e"
    using loop_upper_bound[OF cs] by auto
  from cs 1 2 3 4 5 show ?thesis by blast
qed

text \<open>
  Claim C7. For every real \<open>d\<close>, \<open>max_dev d d\<close> takes the special case: its candidates
  are \<open>0\<close>, \<open>1\<close> and \<open>1/2\<close>, no division is evaluated, and the result is the absolute
  value of the blending function at \<open>1/2\<close>, which is \<open>3/4 * |d|\<close>; so
  \<open>max_dev 1 1 = 3/4\<close> and \<open>max_dev 0 0 = 0\<close>. For no pair of arguments does \<open>max_dev\<close>
  divide by zero.
\<close>

theorem max_dev_equal_arguments:
  "max_dev_candidates d d = Inr [0, 1, 1 / 2]
   \<and> max_dev d d = Inr \<bar>blend d d (1 / 2)\<bar>
   \<and> max_dev d d = Inr (3 / 4 * \<bar>d\<bar>)
   \<and> max_dev 1 1 = Inr (3 / 4)
   \<and> max_dev 0 0 = Inr 0
   \<and> max_dev d0 d1 \<noteq> Inl DivisionByZero
   \<and> (\<exists>e. max_dev d0 d1 = Inr e)"
proof -
  have c: "max_dev_candidates d d = Inr [0, 1, 1 / 2]"
    by (simp add: max_dev_candidates_def)
  have b: "\<bar>blend d d (1 / 2)\<bar> = 3 / 4 * \<bar>d\<bar>"
    by (simp add: blend_def abs_mult)
  have m: "max_dev d d = Inr (3 / 4 * \<bar>d\<bar>)" for d
    by (simp add: max_dev_def max_dev_candidates_def g_MAX_def fabs_def blend_def abs_mult)
  have t: "\<exists>e. max_dev d0 d1 = Inr e"
    using max_dev_candidates_total[of d0 d1] by (auto simp: max_dev_def)
  then have u: "max_dev d0 d1 \<noteq> Inl DivisionByZero" by auto
  from c b m[of d] m[of 1] m[of 0] t u show ?thesis by simp
qed

text \<open>
  Claim C10. In exact real arithmetic \<open>max_dev d0 d1 = max_dev d1 d0\<close>: the substitution
  of \<open>1 - t\<close> for \<open>t\<close> turns one blending function into the other and maps \<open>[0, 1]\<close> onto
  itself.
\<close>

theorem max_dev_symmetric: "max_dev d0 d1 = max_dev d1 d0"
proof -
  obtain cs where cs: "max_dev_candidates d0 d1 = Inr cs"
    using max_dev_candidates_total by blast
  obtain cs' where cs': "max_dev_candidates d1 d0 = Inr cs'"
    using max_dev_candidates_total by blast
  have "max_dev_loop d0 d1 cs 0 = max_dev_loop d1 d0 cs' 0"
    using max_dev_loop_swap_le[OF cs cs'] max_dev_loop_swap_le[OF cs' cs] by simp
  then show ?thesis by (simp add: max_dev_Inr[OF cs] max_dev_Inr[OF cs'])
qed

subsection \<open>\<open>max_dev\<close> on binary64 numbers\<close>

lemmas binary64_eval = binary64_def scale_down.simps scale_up.simps round_even_def
  fl_add_def fl_sub_def fl_mul_def fl_div_def fl_sqrt_def checked_div_def

lemma sqrt_9: "sqrt 9 = 3"
  using real_sqrt_abs[of 3] by simp

lemma binary64_arguments: "binary64 3 = 3 \<and> binary64 (3 - 1 / 2 ^ 51) = 3 - 1 / 2 ^ 51"
  by (simp add: binary64_eval)

text \<open>The intermediate values at \<open>d0 = 3\<close>, \<open>d1 = 3 - 2^-51\<close> (the binary64 number next
  below \<open>3\<close>): \<open>delta\<close> rounds to \<open>9\<close>, and \<open>t0\<close> and \<open>t1\<close> both round to \<open>2^51\<close>.\<close>

lemma binary64_delta:
  "fl_add (fl_sub (fl_mul 3 3) (fl_mul 3 (3 - 1 / 2 ^ 51)))
     (fl_mul (3 - 1 / 2 ^ 51) (3 - 1 / 2 ^ 51)) = 9"
  by (simp add: binary64_eval)

lemma binary64_t2: "fl_div 1 (fl_mul 3 (fl_sub 3 (3 - 1 / 2 ^ 51))) = Inr (6004799503160661 / 8)"
  by (simp add: binary64_eval)

lemma binary64_t0:
  "fl_mul (fl_sub (fl_mul 2 3) (3 - 1 / 2 ^ 51)) (6004799503160661 / 8) = 2 ^ 51"
  by (simp add: binary64_eval)

lemma binary64_t1: "fl_mul (fl_sqrt 9) (6004799503160661 / 8) = 2 ^ 51"
  by (simp add: binary64_eval sqrt_9)

lemma binary64_candidates:
  "max_dev_candidates_binary64 3 (3 - 1 / 2 ^ 51) = Inr [0, 1, 0, 2 ^ 52]"
  by (simp add: max_dev_candidates_binary64_def binary64_eval Let_def sqrt_9)

lemma binary64_result: "max_dev_binary64 3 (3 - 1 / 2 ^ 51) = Inr 0"
  by (simp add: max_dev_binary64_def max_dev_candidates_binary64_def binary64_eval Let_def
      sqrt_9 blend_binary64_def g_MAX_def fabs_def)

text \<open>Where no cancellation occurs the two readings agree up to rounding: at \<open>(1, 0)\<close>
  the exact result is \<open>4/9\<close> and the binary64 result is the double
  \<open>0.44444444444444453\<close>.\<close>

lemma binary64_benign:
  "max_dev_binary64 1 0 = Inr (4003199668773775 / 9007199254740992)
   \<and> \<bar>4003199668773775 / 9007199254740992 - 4 / 9\<bar> < (1 / 2 ^ 52 :: real)"
  by (simp add: max_dev_binary64_def max_dev_candidates_binary64_def binary64_eval Let_def
      blend_binary64_def g_MAX_def fabs_def)

lemma exact_result_large:
  "\<exists>e. max_dev 3 (3 - 1 / 2 ^ 51) = Inr e \<and> 2 < e"
proof -
  obtain cs where cs: "max_dev_candidates 3 (3 - 1 / 2 ^ 51) = Inr cs"
    using max_dev_candidates_total by blast
  have "\<bar>blend 3 (3 - 1 / 2 ^ 51) (1 / 2)\<bar> \<le> max_dev_loop 3 (3 - 1 / 2 ^ 51) cs 0"
    by (rule loop_upper_bound[OF cs]) auto
  moreover have "2 < \<bar>blend 3 (3 - 1 / 2 ^ 51) (1 / 2)\<bar>"
    by (simp add: blend_def)
  ultimately have "2 < max_dev_loop 3 (3 - 1 / 2 ^ 51) cs 0" by linarith
  with max_dev_Inr[OF cs] show ?thesis by blast
qed

text \<open>
  Claim C1 is what the comment above \<open>max_dev\<close> in the source promises (a maximum over
  \<open>0 \<le> t \<le> 1\<close>; the comment leaves out the factor \<open>3\<close> that the code applies), and the
  code does not keep it on the machine. For the binary64 arguments \<open>d0 = 3\<close> and
  \<open>d1 = 3 - 2^-51\<close> the interior critical point is lost to cancellation: \<open>t0\<close> and \<open>t1\<close>
  both round to \<open>2^51\<close>, the candidates are \<open>0\<close>, \<open>1\<close>, \<open>0\<close> and \<open>2^52\<close>, and \<open>max_dev\<close>
  returns \<open>0\<close>, while the blending function has absolute value \<open>9/4 - 3/2^54\<close> at
  \<open>t = 1/2\<close> and the exact reading returns more than \<open>2\<close>.
\<close>

theorem max_dev_binary64_loses_root:
  "binary64 3 = 3 \<and> binary64 (3 - 1 / 2 ^ 51) = 3 - 1 / 2 ^ 51
   \<and> max_dev_candidates_binary64 3 (3 - 1 / 2 ^ 51) = Inr [0, 1, 0, 2 ^ 52]
   \<and> max_dev_binary64 3 (3 - 1 / 2 ^ 51) = Inr 0
   \<and> \<bar>blend 3 (3 - 1 / 2 ^ 51) (1 / 2)\<bar> = 9 / 4 - 3 / 2 ^ 54
   \<and> (\<exists>e. max_dev 3 (3 - 1 / 2 ^ 51) = Inr e \<and> 2 < e)"
proof -
  have "\<bar>blend 3 (3 - 1 / 2 ^ 51) (1 / 2)\<bar> = 9 / 4 - 3 / 2 ^ 54"
    by (simp add: blend_def)
  with binary64_arguments binary64_candidates binary64_result exact_result_large
  show ?thesis by (intro conjI) auto
qed

section \<open>Properties of the cut search and the refinement\<close>

subsection \<open>The bisection\<close>

lemma bisect_L_iters:
  "snd (bisect_L b i epsilon count low high cp iters) \<le> iters + (MAX_ITERS + 1 - count)"
proof (induction b i epsilon count low high cp iters rule: bisect_L.induct)
  case (1 b i epsilon count low high cp iters)
  show ?case
  proof (cases "count \<le> MAX_ITERS")
    case False
    then show ?thesis by (simp add: bisect_L.simps[of b i epsilon count])
  next
    case True
    let ?c = "(low + high) / 2"
    let ?e = "segment_error b i ?c"
    consider "?e = epsilon" | "?e \<noteq> epsilon" "?e < epsilon" | "?e \<noteq> epsilon" "\<not> ?e < epsilon"
      by blast
    then show ?thesis
    proof cases
      case 1
      with True show ?thesis by (simp add: bisect_L.simps[of b i epsilon count] Let_def)
    next
      case 2
      from "1.IH"(1)[OF True refl refl 2] True 2 show ?thesis
        by (simp add: bisect_L.simps[of b i epsilon count] Let_def)
    next
      case 3
      from "1.IH"(2)[OF True refl refl 3] True 3 show ?thesis
        by (simp add: bisect_L.simps[of b i epsilon count] Let_def)
    qed
  qed
qed

lemma bisect_L_lt_one:
  "low < high \<Longrightarrow> high \<le> 1 \<Longrightarrow> count \<le> MAX_ITERS \<or> cp < 1 \<Longrightarrow>
   fst (bisect_L b i epsilon count low high cp iters) < 1"
proof (induction b i epsilon count low high cp iters rule: bisect_L.induct)
  case (1 b i epsilon count low high cp iters)
  show ?case
  proof (cases "count \<le> MAX_ITERS")
    case False
    with "1.prems" show ?thesis by (simp add: bisect_L.simps[of b i epsilon count])
  next
    case True
    let ?c = "(low + high) / 2"
    let ?e = "segment_error b i ?c"
    have c: "low < ?c" "?c < high" "?c < 1" using "1.prems" by auto
    consider "?e = epsilon" | "?e \<noteq> epsilon" "?e < epsilon" | "?e \<noteq> epsilon" "\<not> ?e < epsilon"
      by blast
    then show ?thesis
    proof cases
      case 1
      with True c show ?thesis by (simp add: bisect_L.simps[of b i epsilon count] Let_def)
    next
      case 2
      from "1.IH"(1)[OF True refl refl 2] c "1.prems" True 2 show ?thesis
        by (simp add: bisect_L.simps[of b i epsilon count] Let_def)
    next
      case 3
      from "1.IH"(2)[OF True refl refl 3] c "1.prems" True 3 show ?thesis
        by (simp add: bisect_L.simps[of b i epsilon count] Let_def)
    qed
  qed
qed

lemma bisect_L_at_least_one:
  "count \<le> MAX_ITERS \<Longrightarrow> iters < snd (bisect_L b i epsilon count low high cp iters)"
proof (induction b i epsilon count low high cp iters rule: bisect_L.induct)
  case (1 b i epsilon count low high cp iters)
  note le = "1.prems"
  let ?c = "(low + high) / 2"
  let ?e = "segment_error b i ?c"
  consider "?e = epsilon" | "?e \<noteq> epsilon" "?e < epsilon" | "?e \<noteq> epsilon" "\<not> ?e < epsilon"
    by blast
  then show ?case
  proof cases
    case 1
    with le show ?thesis by (simp add: bisect_L.simps[of b i epsilon count] Let_def)
  next
    case 2
    show ?thesis
    proof (cases "count + 1 \<le> MAX_ITERS")
      case True
      from "1.IH"(1)[OF le refl refl 2 True] le 2 show ?thesis
        by (simp add: bisect_L.simps[of b i epsilon count] Let_def)
    next
      case False
      with le 2 show ?thesis
        by (simp add: bisect_L.simps[of b i epsilon count] bisect_L.simps[of b i epsilon "Suc count"] Let_def)
    qed
  next
    case 3
    show ?thesis
    proof (cases "count + 1 \<le> MAX_ITERS")
      case True
      from "1.IH"(2)[OF le refl refl 3 True] le 3 show ?thesis
        by (simp add: bisect_L.simps[of b i epsilon count] Let_def)
    next
      case False
      with le 3 show ?thesis
        by (simp add: bisect_L.simps[of b i epsilon count] bisect_L.simps[of b i epsilon "Suc count"] Let_def)
    qed
  qed
qed

lemma binary_find_cut_L_iters: "snd (binary_find_cut_L b i epsilon) \<le> MAX_ITERS"
  using bisect_L_iters[of b i epsilon 1 i 1 0 0]
  by (simp add: binary_find_cut_L_def Let_def)

lemma binary_find_cut_L_fast:
  "segment_error b i 1 < epsilon \<Longrightarrow> binary_find_cut_L b i epsilon = (1, 0)"
  by (simp add: binary_find_cut_L_def)

lemma binary_find_cut_L_slow:
  "i < 1 \<Longrightarrow> \<not> segment_error b i 1 < epsilon \<Longrightarrow>
   fst (binary_find_cut_L b i epsilon) < 1 \<and> 1 \<le> snd (binary_find_cut_L b i epsilon)"
  using bisect_L_lt_one[of i 1 1 0 b i epsilon 0] bisect_L_at_least_one[of 1 0 b i epsilon i 1 0]
  by (simp add: binary_find_cut_L_def Let_def MAX_ITERS_def)

lemma binary_find_cut_L_le_one: "i < 1 \<Longrightarrow> fst (binary_find_cut_L b i epsilon) \<le> 1"
  using binary_find_cut_L_slow[of i b epsilon] binary_find_cut_L_fast[of b i epsilon]
  by (cases "segment_error b i 1 < epsilon") auto

subsection \<open>The search loop\<close>

lemma find_cuts_L_loop_result:
  assumes ret: "find_cuts_L_loop b epsilon t cuts iters = Some r"
    and inv: "t \<le> 1" "if cuts = [] then t < 1 else last cuts = t"
      "iters \<le> MAX_ITERS * length cuts"
  shows "fst r \<noteq> [] \<and> last (fst r) = 1 \<and> snd r \<le> MAX_ITERS * length (fst r)"
proof -
  have "t \<le> 1 \<longrightarrow> (if cuts = [] then t < 1 else last cuts = t) \<longrightarrow>
      iters \<le> MAX_ITERS * length cuts \<longrightarrow>
      fst r \<noteq> [] \<and> last (fst r) = 1 \<and> snd r \<le> MAX_ITERS * length (fst r)"
  proof (rule find_cuts_L_loop.raw_induct[where P =
      "\<lambda>b epsilon t cuts iters r. t \<le> 1 \<longrightarrow> (if cuts = [] then t < 1 else last cuts = t) \<longrightarrow>
        iters \<le> MAX_ITERS * length cuts \<longrightarrow>
        fst r \<noteq> [] \<and> last (fst r) = 1 \<and> snd r \<le> MAX_ITERS * length (fst r)", OF _ ret],
      goal_cases)
    case (1 loop b epsilon t cuts iters r)
    show ?case
    proof (intro impI)
      assume t1: "t \<le> 1" and l: "if cuts = [] then t < 1 else last cuts = t"
        and it: "iters \<le> MAX_ITERS * length cuts"
      show "fst r \<noteq> [] \<and> last (fst r) = 1 \<and> snd r \<le> MAX_ITERS * length (fst r)"
      proof (cases "t < 1")
        case False
        with t1 l it 1(2) show ?thesis by (auto split: if_splits)
      next
        case True
        obtain t' k where tk: "binary_find_cut_L b t epsilon = (t', k)"
          by (cases "binary_find_cut_L b t epsilon")
        with 1(2) True have rec: "loop b epsilon t' (cuts @ [t']) (iters + k) = Some r" by simp
        have t': "t' \<le> 1" using binary_find_cut_L_le_one[OF True, of b epsilon] tk by simp
        have k: "k \<le> MAX_ITERS" using binary_find_cut_L_iters[of b t epsilon] tk by simp
        have "iters + k \<le> MAX_ITERS * length (cuts @ [t'])" using k it by simp
        with 1(1)[OF rec] t' show ?thesis by simp
      qed
    qed
  qed
  with inv show ?thesis by blast
qed

lemma find_cut_points_L_result:
  "find_cut_points_L b epsilon [] = Some (cuts, iters) \<Longrightarrow>
   cuts \<noteq> [] \<and> last cuts = 1 \<and> iters \<le> MAX_ITERS * length cuts"
  using find_cuts_L_loop_result[of b epsilon 0 "[]" 0 "(cuts, iters)"]
  by (simp add: find_cut_points_L_def)

lemma find_cuts_R_loop_nonempty:
  assumes ret: "find_cuts_R_loop b epsilon t cuts iters = Some r"
    and inv: "0 < t \<or> cuts \<noteq> []"
  shows "fst r \<noteq> []"
proof -
  have "0 < t \<or> cuts \<noteq> [] \<longrightarrow> fst r \<noteq> []"
  proof (rule find_cuts_R_loop.raw_induct[where P =
      "\<lambda>b epsilon t cuts iters r. 0 < t \<or> cuts \<noteq> [] \<longrightarrow> fst r \<noteq> []", OF _ ret],
      goal_cases)
    case (1 loop b epsilon t cuts iters r)
    show ?case
    proof (cases "0 < t")
      case False
      with 1(2) show ?thesis by auto
    next
      case True
      obtain t' k where tk: "binary_find_cut_R b t epsilon = (t', k)"
        by (cases "binary_find_cut_R b t epsilon")
      with 1(2) True have "loop b epsilon t' (t' # cuts) (iters + k) = Some r" by simp
      from 1(1)[OF this] show ?thesis by simp
    qed
  qed
  with inv show ?thesis by blast
qed

lemma find_cut_points_R_nonempty:
  "find_cut_points_R b epsilon [] = Some (cuts, iters) \<Longrightarrow> cuts \<noteq> []"
  using find_cuts_R_loop_nonempty[of b epsilon 1 "[]" 0 "(cuts, iters)"]
  by (simp add: find_cut_points_R_def)

lemmas bump_eval = bump_curve_def bump_error_def overlap_def binary_find_cut_L_def
  binary_find_cut_R_def MAX_ITERS_def EPSILON_def Let_def find_cut_points_L_def
  find_cut_points_R_def find_cuts_L_loop.simps find_cuts_R_loop.simps bisect_L.simps bisect_R.simps

lemma bump_left_cuts: "find_cut_points_L (bump_curve k) 1 [] = Some ([3 / 4, 1], 2)"
  by (simp add: bump_eval)

lemma bump_right_cuts: "find_cut_points_R (bump_curve k) 1 [] = Some ([0, 9 / 16], 4)"
  by (simp add: bump_eval)

lemma bump_exact_fit: "segment_error (bump_curve k) (9 / 16) 1 = 1"
  by (simp add: bump_eval)

lemma bump_exact_cut: "binary_find_cut_L (bump_curve k) (9 / 16) 1 = (16777209 / 16777216, 20)"
  by (simp add: bump_eval)

subsection \<open>The refinement\<close>

lemma step_size_nonneg: "0 \<le> step_size b i a"
  by (simp add: step_size_def fabs_def EPSILON_def)

lemma jiggle_step_cut_low: "cut_low (jiggle_step b i a) = cut_low a"
  by (simp add: jiggle_step_def Let_def)

lemma jiggle_step_cut_high: "cut_high (jiggle_step b i a) = cut_high a"
  by (simp add: jiggle_step_def Let_def)

lemma jiggle_step_lengths:
  "length (cut_point (jiggle_step b i a)) = length (cut_point a)"
  "length (arc_error (jiggle_step b i a)) = length (arc_error a)"
  by (simp_all add: jiggle_step_def Let_def)

lemma jiggle_step_cut_point_other:
  "j \<noteq> i + 1 \<Longrightarrow> cut_point (jiggle_step b i a) ! j = cut_point a ! j"
  by (simp add: jiggle_step_def Let_def)

lemma jiggle_step_arc_error_other:
  "j \<noteq> i \<Longrightarrow> arc_error (jiggle_step b i a) ! j = arc_error a ! j"
  by (simp add: jiggle_step_def Let_def)

lemma jiggle_step_cut_point_moved:
  "i + 1 < length (cut_point a) \<Longrightarrow>
   cut_point (jiggle_step b i a) ! (i + 1) =
     (if arc_error a ! (i + 1) > arc_error a ! i
      then cut_point a ! (i + 1) - step_size b i a * (cut_point a ! (i + 1) - cut_low a ! i)
      else cut_point a ! (i + 1) + step_size b i a * (cut_high a ! i - cut_point a ! (i + 1)))"
  by (simp add: jiggle_step_def Let_def)

lemma jiggle_step_arc_error_updated:
  "i < length (arc_error a) \<Longrightarrow>
   arc_error (jiggle_step b i a) ! i =
     segment_error b (cut_point (jiggle_step b i a) ! i) (cut_point (jiggle_step b i a) ! (i + 1))"
  by (simp add: jiggle_step_def Let_def)

lemma jiggle_step_stays:
  assumes r: "cut_low a ! i \<le> cut_point a ! (i + 1)" "cut_point a ! (i + 1) \<le> cut_high a ! i"
    and len: "i + 1 < length (cut_point a)"
    and s: "step_size b i a \<le> 1"
  shows "cut_low a ! i \<le> cut_point (jiggle_step b i a) ! (i + 1)
       \<and> cut_point (jiggle_step b i a) ! (i + 1) \<le> cut_high a ! i"
proof -
  let ?s = "step_size b i a" and ?p = "cut_point a ! (i + 1)"
  let ?lo = "cut_low a ! i" and ?hi = "cut_high a ! i"
  have s0: "0 \<le> ?s" by (rule step_size_nonneg)
  have d1: "0 \<le> ?p - ?lo" and d2: "0 \<le> ?hi - ?p" using r by auto
  have a1: "?s * (?p - ?lo) \<le> ?p - ?lo" using mult_right_mono[OF s d1] by simp
  have a2: "0 \<le> ?s * (?p - ?lo)" using s0 d1 by simp
  have b1: "?s * (?hi - ?p) \<le> ?hi - ?p" using mult_right_mono[OF s d2] by simp
  have b2: "0 \<le> ?s * (?hi - ?p)" using s0 d2 by simp
  show ?thesis
    unfolding jiggle_step_cut_point_moved[OF len]
    using a1 a2 b1 b2 r by auto
qed

lemma jiggle_inner_frame:
  "cut_low (jiggle_inner b n c a) = cut_low a
   \<and> cut_high (jiggle_inner b n c a) = cut_high a
   \<and> length (cut_point (jiggle_inner b n c a)) = length (cut_point a)
   \<and> length (arc_error (jiggle_inner b n c a)) = length (arc_error a)
   \<and> (\<forall>j. j \<le> c \<or> n < j \<longrightarrow> cut_point (jiggle_inner b n c a) ! j = cut_point a ! j)"
proof (induction b n c a rule: jiggle_inner.induct)
  case (1 b n c a)
  show ?case
  proof (cases "c < n")
    case False
    then show ?thesis by (simp add: jiggle_inner.simps[of b n c])
  next
    case True
    have eq: "jiggle_inner b n c a = jiggle_inner b n (c + 1) (jiggle_step b c a)"
      using True by (simp add: jiggle_inner.simps[of b n c])
    from "1.IH"[OF True] True show ?thesis
      unfolding eq
      by (auto simp: jiggle_step_cut_low jiggle_step_cut_high jiggle_step_lengths
          jiggle_step_cut_point_other)
  qed
qed

lemma jiggle_outer_frame:
  "cut_low (fst (jiggle_outer b n c a p)) = cut_low a
   \<and> cut_high (fst (jiggle_outer b n c a p)) = cut_high a
   \<and> length (cut_point (fst (jiggle_outer b n c a p))) = length (cut_point a)
   \<and> length (arc_error (fst (jiggle_outer b n c a p))) = length (arc_error a)
   \<and> (\<forall>j. j = 0 \<or> n < j \<longrightarrow> cut_point (fst (jiggle_outer b n c a p)) ! j = cut_point a ! j)"
proof (induction b n c a p rule: jiggle_outer.induct)
  case (1 b n c a p)
  show ?case
  proof (cases "c < 10")
    case False
    then show ?thesis by (simp add: jiggle_outer.simps[of b n c])
  next
    case True
    have eq: "jiggle_outer b n c a p = jiggle_outer b n (c + 1) (jiggle_inner b n 0 a) (p + 1)"
      using True by (simp add: jiggle_outer.simps[of b n c])
    from "1.IH"[OF True] jiggle_inner_frame[of b n 0 a] show ?thesis
      unfolding eq by auto
  qed
qed

lemma jiggle_outer_passes: "snd (jiggle_outer b n c a p) = p + (10 - c)"
proof (induction b n c a p rule: jiggle_outer.induct)
  case (1 b n c a p)
  show ?case
  proof (cases "c < 10")
    case False
    then show ?thesis by (simp add: jiggle_outer.simps[of b n c])
  next
    case True
    from "1.IH"[OF True] True show ?thesis
      by (simp add: jiggle_outer.simps[of b n c])
  qed
qed

lemma jiggle_passes: "snd (jiggle b a) = 9"
  by (simp add: jiggle_def jiggle_outer_passes)

subsection \<open>The arrays before the refinement\<close>

lemma fill_cuts_frame:
  "fill_cuts b ls rs c a = Inr (c', a') \<Longrightarrow>
   c' = c + length ls
   \<and> length (cut_low a') = length (cut_low a) \<and> length (cut_high a') = length (cut_high a)
   \<and> length (cut_point a') = length (cut_point a) \<and> length (arc_error a') = length (arc_error a)
   \<and> (\<forall>j\<le>c. cut_point a' ! j = cut_point a ! j)"
proof (induction b ls rs c a rule: fill_cuts.induct)
  case (1 b right_cuts cut_count a)
  then show ?case by simp
next
  case (2 b l left_cuts cut_count a)
  then show ?case by simp
next
  case (3 b l left_cuts r right_cuts cut_count a)
  from "3.prems" "3.IH"[OF refl refl refl refl] show ?case
    by (simp add: Let_def)
qed

lemma init_cuts_frame:
  assumes "init_cuts b ls rs = Inr a"
  shows "length (cut_low a) = length ls \<and> length (cut_high a) = length ls
   \<and> length (cut_point a) = length ls + 2 \<and> length (arc_error a) = length ls + 1
   \<and> cut_point a ! 0 = 0 \<and> cut_point a ! (length ls + 1) = 1"
proof -
  let ?a0 = "\<lparr>cut_low = replicate (length ls) 0, cut_high = replicate (length ls) 0,
     cut_point = (replicate (length ls + 2) 0)[0 := 0], arc_error = replicate (length ls + 1) (0::real)\<rparr>"
  from assms obtain c a1 where f: "fill_cuts b ls rs 0 ?a0 = Inr (c, a1)"
    by (auto simp: init_cuts_def Let_def split: sum.splits)
  from fill_cuts_frame[OF f] have c: "c = length ls"
    and l: "length (cut_low a1) = length ls" "length (cut_high a1) = length ls"
      "length (cut_point a1) = length ls + 2" "length (arc_error a1) = length ls + 1"
    and z: "cut_point a1 ! 0 = 0" by auto
  from assms f have "a = (let a = a1\<lparr>cut_point := (cut_point a1)[c + 1 := 1]\<rparr>
        in a\<lparr>arc_error := (arc_error a)
              [c := segment_error b (cut_point a ! c) (cut_point a ! (c + 1))]\<rparr>)"
    by (simp add: init_cuts_def Let_def)
  with c l z show ?thesis by (simp add: Let_def)
qed

lemma demo_cuts_frame:
  assumes "demo_cuts b = Some (Inr (a, passes))"
  shows "length (cut_point a) = length (cut_low a) + 2
     \<and> cut_point a ! 0 = 0 \<and> cut_point a ! (length (cut_low a) + 1) = 1 \<and> passes = 9"
proof -
  from assms obtain ls rs a0 where i: "init_cuts b ls rs = Inr a0" and j: "jiggle b a0 = (a, passes)"
    by (auto simp: demo_cuts_def split: option.splits sum.splits)
  note f = init_cuts_frame[OF i]
  from jiggle_outer_frame[of b "length (cut_low a0)" 1 a0 0] j
  have "cut_low a = cut_low a0" "length (cut_point a) = length (cut_point a0)"
    "cut_point a ! 0 = cut_point a0 ! 0"
    "cut_point a ! (length (cut_low a0) + 1) = cut_point a0 ! (length (cut_low a0) + 1)"
    by (auto simp: jiggle_def)
  moreover have "passes = 9" using jiggle_passes[of b a0] j by simp
  ultimately show ?thesis using f by simp
qed

subsection \<open>The example curve through the pipeline\<close>

lemma bump_init_cuts:
  "init_cuts (bump_curve k) (butlast [3 / 4, 1]) (tl [0, 9 / 16]) = Inr bump_cuts"
  by (simp add: init_cuts_def bump_cuts_def bump_curve_def bump_error_def overlap_def Let_def)

lemmas jiggle_eval = jiggle_def jiggle_outer.simps jiggle_inner.simps jiggle_step_def
  step_size_def curvature_def curvature_checked_def checked_div_def len_def fabs_def EPSILON_def Let_def bump_cuts_def bump_curve_def
  bump_error_def overlap_def powr_neg_numeral

lemma bump_demo_cuts:
  "demo_cuts (bump_curve k) = Some (Inr (jiggle (bump_curve k) bump_cuts))"
  using bump_left_cuts[of k] bump_right_cuts[of k] bump_init_cuts[of k]
  by (simp add: demo_cuts_def EPSILON_def)


lemma bump_step_sharp:
  "jiggle_step (bump_curve (- 3)) 0 bump_cuts =
     \<lparr>cut_low = [9 / 16], cut_high = [3 / 4], cut_point = [0, 27 / 32, 1], arc_error = [19 / 16, 1 / 2]\<rparr>"
  by (simp add: jiggle_eval)


lemma bump_step_size_sharp: "step_size (bump_curve (- 3)) 0 bump_cuts = 2"
  by (simp add: jiggle_eval)

lemma bump_jiggle_mild:
  "jiggle (bump_curve (- 1)) bump_cuts =
     (\<lparr>cut_low = [9 / 16], cut_high = [3 / 4], cut_point = [0, 12285 / 16384, 1],
       arc_error = [1, 1 / 2]\<rparr>, 9)"
  by (simp add: jiggle_eval)

lemma bump_jiggle_sharp:
  "jiggle (bump_curve (- 4)) bump_cuts =
     (\<lparr>cut_low = [9 / 16], cut_high = [3 / 4], cut_point = [0, 1516977 / 32, 1],
       arc_error = [3 / 2, 1 / 2]\<rparr>, 9)"
  by (simp add: jiggle_eval)

subsection \<open>Cut points that stay in order\<close>

lemma demo_cuts_from_init:
  "demo_cuts b =
     (case demo_init b of
        None \<Rightarrow> None
      | Some (Inl e) \<Rightarrow> Some (Inl e)
      | Some (Inr a) \<Rightarrow> Some (Inr (jiggle b a)))"
  by (simp add: demo_cuts_def demo_init_def split: option.splits sum.splits prod.splits)

lemma fill_cuts_inv:
  "fill_cuts b ls rs c a = Inr (c', a') \<Longrightarrow> well_sized a \<Longrightarrow>
   c + length ls \<le> length (cut_low a) \<Longrightarrow> midpoints_upto c a \<Longrightarrow>
   midpoints_upto c' a'"
proof (induction b ls rs c a rule: fill_cuts.induct)
  case (1 b right_cuts cut_count a)
  then show ?case by simp
next
  case (2 b l left_cuts cut_count a)
  then show ?case by simp
next
  case (3 b l left_cuts r right_cuts c a)
  define a1 where "a1 = a\<lparr>cut_low := (cut_low a)[c := r]\<rparr>"
  define a2 where "a2 = a1\<lparr>cut_high := (cut_high a1)[c := l]\<rparr>"
  define a3 where "a3 = a2\<lparr>cut_point := (cut_point a2)
                [c + 1 := (cut_low a2 ! c + cut_high a2 ! c) / 2]\<rparr>"
  define a4 where "a4 = a3\<lparr>arc_error := (arc_error a3)
                [c := segment_error b (cut_point a3 ! c) (cut_point a3 ! (c + 1))]\<rparr>"
  have rec: "fill_cuts b left_cuts right_cuts (c + 1) a4 = Inr (c', a')"
    using "3.prems"(1) by (simp add: Let_def a1_def a2_def a3_def a4_def)
  have ws: "well_sized a" and c: "c < length (cut_low a)"
    using "3.prems" by auto
  have ws4: "well_sized a4"
    using ws by (simp add: well_sized_def a1_def a2_def a3_def a4_def)
  have len4: "c + 1 + length left_cuts \<le> length (cut_low a4)"
    using "3.prems"(3) by (simp add: a1_def a2_def a3_def a4_def)
  have m4: "midpoints_upto (c + 1) a4"
    unfolding midpoints_upto_def
  proof (intro allI impI)
    fix i assume "i < c + 1"
    then consider "i < c" | "i = c" by linarith
    then show "cut_point a4 ! (i + 1) = (cut_low a4 ! i + cut_high a4 ! i) / 2"
    proof cases
      case 1
      with "3.prems"(4) show ?thesis
        by (simp add: midpoints_upto_def a1_def a2_def a3_def a4_def)
    next
      case 2
      with c ws show ?thesis
        by (simp add: well_sized_def a1_def a2_def a3_def a4_def)
    qed
  qed
  from "3.IH"[OF a1_def a2_def a3_def a4_def rec ws4 len4 m4] show ?case .
qed

lemma init_cuts_inv:
  assumes "init_cuts b ls rs = Inr a"
  shows "well_sized a \<and> midpoints_upto (length (cut_low a)) a"
proof -
  let ?n = "length ls"
  let ?a0 = "\<lparr>cut_low = replicate ?n 0, cut_high = replicate ?n 0,
     cut_point = (replicate (?n + 2) 0)[0 := 0], arc_error = replicate (?n + 1) (0::real)\<rparr>"
  from assms obtain c a1 where f: "fill_cuts b ls rs 0 ?a0 = Inr (c, a1)"
    by (auto simp: init_cuts_def Let_def split: sum.splits)
  have ws0: "well_sized ?a0" by (simp add: well_sized_def)
  from fill_cuts_frame[OF f] have c: "c = ?n"
    and l: "length (cut_low a1) = ?n" "length (cut_high a1) = ?n"
      "length (cut_point a1) = ?n + 2" "length (arc_error a1) = ?n + 1"
    by auto
  from fill_cuts_inv[OF f ws0] have m1: "midpoints_upto c a1"
    by (simp add: midpoints_upto_def)
  define a2 where "a2 = a1\<lparr>cut_point := (cut_point a1)[c + 1 := 1]\<rparr>"
  from assms f have a: "a = a2\<lparr>arc_error := (arc_error a2)
              [c := segment_error b (cut_point a2 ! c) (cut_point a2 ! (c + 1))]\<rparr>"
    by (simp add: init_cuts_def Let_def a2_def)
  have ws: "well_sized a" using l by (simp add: well_sized_def a a2_def)
  have m: "midpoints_upto (length (cut_low a)) a"
    using m1 c l by (simp add: midpoints_upto_def a a2_def)
  from ws m show ?thesis by blast
qed

lemma midpoints_within_ranges:
  "midpoints_upto (length (cut_low a)) a \<Longrightarrow> ranges_ordered a \<Longrightarrow> within_ranges a"
proof -
  assume m: "midpoints_upto (length (cut_low a)) a" and r: "ranges_ordered a"
  show "within_ranges a"
    unfolding within_ranges_def
  proof (intro allI impI)
    fix i assume i: "i < length (cut_low a)"
    from m i have "cut_point a ! (i + 1) = (cut_low a ! i + cut_high a ! i) / 2"
      unfolding midpoints_upto_def by blast
    moreover from r i have "cut_low a ! i \<le> cut_high a ! i"
      unfolding ranges_ordered_def by blast
    ultimately show "cut_low a ! i \<le> cut_point a ! (i + 1) \<and> cut_point a ! (i + 1) \<le> cut_high a ! i"
      by simp
  qed
qed

lemma jiggle_step_keeps:
  assumes ws: "well_sized a" and i: "i < length (cut_low a)"
    and w: "within_ranges a" and s: "step_size b i a \<le> 1"
  shows "well_sized (jiggle_step b i a) \<and> within_ranges (jiggle_step b i a)"
proof -
  let ?a = "jiggle_step b i a"
  have ws': "well_sized ?a"
    using ws by (simp add: well_sized_def jiggle_step_cut_low jiggle_step_cut_high jiggle_step_lengths)
  have len: "i + 1 < length (cut_point a)" using i ws by (simp add: well_sized_def)
  have w': "within_ranges ?a"
    unfolding within_ranges_def
  proof (intro allI impI)
    fix j assume j: "j < length (cut_low ?a)"
    then have j': "j < length (cut_low a)" by (simp add: jiggle_step_cut_low)
    show "cut_low ?a ! j \<le> cut_point ?a ! (j + 1) \<and> cut_point ?a ! (j + 1) \<le> cut_high ?a ! j"
    proof (cases "j = i")
      case True
      from w i have "cut_low a ! i \<le> cut_point a ! (i + 1)" "cut_point a ! (i + 1) \<le> cut_high a ! i"
        by (auto simp: within_ranges_def)
      from jiggle_step_stays[OF this len s] True show ?thesis
        by (simp add: jiggle_step_cut_low jiggle_step_cut_high)
    next
      case False
      with w j' show ?thesis
        by (simp add: within_ranges_def jiggle_step_cut_low jiggle_step_cut_high
            jiggle_step_cut_point_other)
    qed
  qed
  from ws' w' show ?thesis by blast
qed

lemma jiggle_inner_keeps:
  "n = length (cut_low a) \<Longrightarrow> well_sized a \<Longrightarrow> within_ranges a \<Longrightarrow> inner_ok b n c a \<Longrightarrow>
   well_sized (jiggle_inner b n c a) \<and> within_ranges (jiggle_inner b n c a)"
proof (induction b n c a rule: jiggle_inner.induct)
  case (1 b n c a)
  show ?case
  proof (cases "c < n")
    case False
    then have "jiggle_inner b n c a = a" by (simp add: jiggle_inner.simps[of b n c])
    with "1.prems" show ?thesis by simp
  next
    case True
    have eq: "jiggle_inner b n c a = jiggle_inner b n (c + 1) (jiggle_step b c a)"
      using True by (simp add: jiggle_inner.simps[of b n c])
    from "1.prems"(4) True have ok: "step_ok b c a"
      and rest: "inner_ok b n (c + 1) (jiggle_step b c a)"
      by (simp_all add: inner_ok.simps[of b n c])
    from True "1.prems"(1) have c: "c < length (cut_low a)" by simp
    from ok have s: "step_size b c a \<le> 1" by (simp add: step_ok_def)
    note k = jiggle_step_keeps[OF "1.prems"(2) c "1.prems"(3) s]
    have n: "n = length (cut_low (jiggle_step b c a))"
      using "1.prems"(1) by (simp add: jiggle_step_cut_low)
    from "1.IH"[OF True n _ _ rest] k show ?thesis unfolding eq by blast
  qed
qed

lemma jiggle_outer_keeps:
  "n = length (cut_low a) \<Longrightarrow> well_sized a \<Longrightarrow> within_ranges a \<Longrightarrow> outer_ok b n c a \<Longrightarrow>
   within_ranges (fst (jiggle_outer b n c a p))"
proof (induction b n c a p rule: jiggle_outer.induct)
  case (1 b n c a p)
  show ?case
  proof (cases "c < 10")
    case False
    then have "jiggle_outer b n c a p = (a, p)" by (simp add: jiggle_outer.simps[of b n c])
    with "1.prems" show ?thesis by simp
  next
    case True
    have eq: "jiggle_outer b n c a p = jiggle_outer b n (c + 1) (jiggle_inner b n 0 a) (p + 1)"
      using True by (simp add: jiggle_outer.simps[of b n c])
    from "1.prems"(4) True have ok: "inner_ok b n 0 a"
      and rest: "outer_ok b n (c + 1) (jiggle_inner b n 0 a)"
      by (simp_all add: outer_ok.simps[of b n c])
    note k = jiggle_inner_keeps[OF "1.prems"(1) "1.prems"(2) "1.prems"(3) ok]
    have n: "n = length (cut_low (jiggle_inner b n 0 a))"
      using "1.prems"(1) jiggle_inner_frame[of b n 0 a] by simp
    from "1.IH"[OF True n _ _ rest] k show ?thesis unfolding eq by blast
  qed
qed

lemma within_ranges_increasing:
  assumes w: "within_ranges a" and r: "ranges_ordered a"
    and l: "length (cut_point a) = length (cut_low a) + 2"
    and z: "cut_point a ! 0 = 0" and o: "cut_point a ! (length (cut_low a) + 1) = 1"
  shows "sorted_wrt (<) (cut_point a)"
proof -
  let ?n = "length (cut_low a)"
  have "cut_point a ! i < cut_point a ! Suc i" if i: "Suc i < length (cut_point a)" for i
  proof -
    from i l have i': "i \<le> ?n" by simp
    have lower: "cut_point a ! i < cut_low a ! i" if "i < ?n"
    proof (cases i)
      case 0
      with r that z show ?thesis by (simp add: ranges_ordered_def)
    next
      case (Suc k)
      with that have k: "k < ?n" "k + 1 < ?n" by auto
      from w k(1) have "cut_point a ! (k + 1) \<le> cut_high a ! k" by (simp add: within_ranges_def)
      moreover from r k have "cut_high a ! k < cut_low a ! (k + 1)"
        by (simp add: ranges_ordered_def)
      ultimately show ?thesis using Suc by simp
    qed
    show ?thesis
    proof (cases "i < ?n")
      case True
      from w True have "cut_low a ! i \<le> cut_point a ! (i + 1)" by (simp add: within_ranges_def)
      with lower[OF True] show ?thesis by simp
    next
      case False
      with i' have in': "i = ?n" by simp
      show ?thesis
      proof (cases i)
        case 0
        with in' z o show ?thesis by simp
      next
        case (Suc k)
        with in' have k: "k < ?n" by simp
        from w k have "cut_point a ! (k + 1) \<le> cut_high a ! k" by (simp add: within_ranges_def)
        moreover from r k have "cut_high a ! k < 1" by (simp add: ranges_ordered_def)
        ultimately show ?thesis using Suc in' o by simp
      qed
    qed
  qed
  then show ?thesis
    by (simp add: sorted_wrt_iff_nth_Suc_transp)
qed

lemma demo_cuts_increasing:
  assumes d: "demo_cuts b = Some (Inr (a, passes))" and i: "demo_init b = Some (Inr a0)"
    and r: "ranges_ordered a0" and s: "steps_at_most_one b a0"
  shows "sorted_wrt (<) (cut_point a)"
proof -
  from d i have j: "jiggle b a0 = (a, passes)" by (simp add: demo_cuts_from_init)
  from i obtain ls rs where "init_cuts b ls rs = Inr a0"
    by (auto simp: demo_init_def split: option.splits prod.splits)
  from init_cuts_inv[OF this] have ws: "well_sized a0"
    and m: "midpoints_upto (length (cut_low a0)) a0" by auto
  from jiggle_outer_frame[of b "length (cut_low a0)" 1 a0 0] j
  have lo: "cut_low a = cut_low a0" and hi: "cut_high a = cut_high a0"
    by (auto simp: jiggle_def)
  from r lo hi have ra: "ranges_ordered a" by (simp add: ranges_ordered_def)
  from s have ok: "outer_ok b (length (cut_low a0)) 1 a0" by (simp add: steps_at_most_one_def)
  from jiggle_outer_keeps[OF refl ws midpoints_within_ranges[OF m r] ok, of 0] j
  have w: "within_ranges a" by (simp add: jiggle_def)
  from demo_cuts_frame[OF d] have "length (cut_point a) = length (cut_low a) + 2"
    "cut_point a ! 0 = 0" "cut_point a ! (length (cut_low a) + 1) = 1" by auto
  from within_ranges_increasing[OF w ra this] show ?thesis .
qed

lemma bump_demo_init: "demo_init (bump_curve k) = Some (Inr bump_cuts)"
  using bump_left_cuts[of k] bump_right_cuts[of k] bump_init_cuts[of k]
  by (simp add: demo_init_def EPSILON_def)

lemma bump_ranges_ordered: "ranges_ordered bump_cuts"
  by (simp add: ranges_ordered_def bump_cuts_def)

lemma bump_jiggle_flat:
  "jiggle (bump_curve 0) bump_cuts =
     (\<lparr>cut_low = [9 / 16], cut_high = [3 / 4], cut_point = [0, 6232407 / 8388608, 1],
       arc_error = [1, 1 / 2]\<rparr>, 9)"
  by (simp add: jiggle_eval)

lemma bump_steps_flat: "steps_at_most_one (bump_curve 0) bump_cuts"
  by (simp add: steps_at_most_one_def outer_ok.simps inner_ok.simps step_ok_def jiggle_eval)

lemma bump_steps_sharp: "\<not> steps_at_most_one (bump_curve (- 4)) bump_cuts"
proof -
  have "step_size (bump_curve (- 4)) 0 bump_cuts = 4"
    by (simp add: jiggle_eval)
  then have "\<not> step_ok (bump_curve (- 4)) 0 bump_cuts" by (simp add: step_ok_def)
  then have "\<not> inner_ok (bump_curve (- 4)) 1 0 bump_cuts"
    using inner_ok.simps[of "bump_curve (- 4)" 1 0 bump_cuts] by simp
  then have "\<not> outer_ok (bump_curve (- 4)) 1 1 bump_cuts"
    using outer_ok.simps[of "bump_curve (- 4)" 1 1 bump_cuts] by simp
  moreover have "length (cut_low bump_cuts) = 1" by (simp add: bump_cuts_def)
  ultimately show ?thesis by (simp add: steps_at_most_one_def)
qed

section \<open>The claims about the cut search and the refinement\<close>

text \<open>
  Claim C4, as the code has it. The fast path of \<open>binary_find_cut_L\<close> tests
  \<open>error < epsilon\<close>: a remaining segment estimated strictly below \<open>epsilon\<close> returns \<open>1\<close>
  with no bisection step. A remaining segment estimated at exactly \<open>epsilon\<close> is not
  taken by the fast path: from a start below \<open>1\<close> the bisection runs and returns a cut
  strictly below \<open>1\<close>.
\<close>

theorem binary_find_cut_L_fast_path:
  "(segment_error b i 1 < epsilon \<longrightarrow> binary_find_cut_L b i epsilon = (1, 0))
   \<and> (segment_error b i 1 = epsilon \<and> i < 1 \<longrightarrow>
        fst (binary_find_cut_L b i epsilon) < 1 \<and> 1 \<le> snd (binary_find_cut_L b i epsilon))"
  using binary_find_cut_L_fast[of b i epsilon] binary_find_cut_L_slow[of i b epsilon]
  by auto

theorem binary_find_cut_L_fast_path_witness:
  "segment_error (bump_curve 0) (3 / 4) 1 < 1
   \<and> binary_find_cut_L (bump_curve 0) (3 / 4) 1 = (1, 0)
   \<and> segment_error (bump_curve 0) (9 / 16) 1 = 1 \<and> (9 / 16 :: real) < 1
   \<and> fst (binary_find_cut_L (bump_curve 0) (9 / 16) 1) < 1
   \<and> 1 \<le> snd (binary_find_cut_L (bump_curve 0) (9 / 16) 1)"
proof -
  have a: "segment_error (bump_curve 0) (3 / 4) 1 < 1"
    by (simp add: bump_curve_def bump_error_def overlap_def)
  have b: "segment_error (bump_curve 0) (9 / 16) 1 = 1" by (rule bump_exact_fit)
  have c: "(9 / 16 :: real) < 1" by simp
  from binary_find_cut_L_fast_path[of "bump_curve 0" "3 / 4" 1] a
    binary_find_cut_L_fast_path[of "bump_curve 0" "9 / 16" 1] b c
  show ?thesis by blast
qed

theorem binary_find_cut_L_equality_counterexample:
  "segment_error (bump_curve 0) (9 / 16) 1 = 1
   \<and> binary_find_cut_L (bump_curve 0) (9 / 16) 1 = (16777209 / 16777216, 20)
   \<and> fst (binary_find_cut_L (bump_curve 0) (9 / 16) 1) \<noteq> 1"
  by (simp add: bump_exact_fit bump_exact_cut)




text \<open>
  Claim C6, as the code has it. The counter of the refinement loop runs from \<open>1\<close> while
  it is below \<open>10\<close>: the refinement makes exactly 9 passes over the cut ranges.
\<close>

theorem jiggle_nine_passes: "snd (jiggle b a) = 9"
  by (rule jiggle_passes)

theorem jiggle_ten_passes_counterexample:
  "snd (jiggle (bump_curve (- 1)) bump_cuts) = 9 \<and> snd (jiggle (bump_curve (- 1)) bump_cuts) \<noteq> 10"
  by (simp add: bump_jiggle_mild)

text \<open>
  Claim C9. One adjustment of the refinement, for the cut range \<open>i\<close>, writes
  \<open>cut_point[i+1]\<close> and \<open>arc_error[i]\<close> and nothing else: \<open>cut_low\<close> and \<open>cut_high\<close> are
  unchanged, every \<open>arc_error\<close> entry other than \<open>i\<close> is unchanged, in particular
  \<open>arc_error[i+1]\<close>, which keeps the estimate of the segment as it was before the cut
  point moved; \<open>arc_error[i]\<close> is the estimate of the segment between the new cut points.
\<close>

theorem jiggle_step_frame:
  "cut_low (jiggle_step b i a) = cut_low a
   \<and> cut_high (jiggle_step b i a) = cut_high a
   \<and> arc_error (jiggle_step b i a) ! (i + 1) = arc_error a ! (i + 1)
   \<and> (\<forall>j. j \<noteq> i \<longrightarrow> arc_error (jiggle_step b i a) ! j = arc_error a ! j)
   \<and> (\<forall>j. j \<noteq> i + 1 \<longrightarrow> cut_point (jiggle_step b i a) ! j = cut_point a ! j)
   \<and> length (arc_error (jiggle_step b i a)) = length (arc_error a)
   \<and> length (cut_point (jiggle_step b i a)) = length (cut_point a)
   \<and> (i < length (arc_error a) \<longrightarrow>
        arc_error (jiggle_step b i a) ! i =
          segment_error b (cut_point (jiggle_step b i a) ! i) (cut_point (jiggle_step b i a) ! (i + 1)))"
  using jiggle_step_arc_error_updated[of i a b]
  by (simp add: jiggle_step_cut_low jiggle_step_cut_high jiggle_step_lengths
      jiggle_step_arc_error_other jiggle_step_cut_point_other)

theorem jiggle_step_frame_witness:
  "arc_error bump_cuts = [1, 1 / 2]
   \<and> cut_point (jiggle_step (bump_curve (- 3)) 0 bump_cuts) = [0, 27 / 32, 1]
   \<and> arc_error (jiggle_step (bump_curve (- 3)) 0 bump_cuts) ! 0
       = segment_error (bump_curve (- 3)) 0 (27 / 32)
   \<and> arc_error (jiggle_step (bump_curve (- 3)) 0 bump_cuts) ! 1 = 1 / 2
   \<and> segment_error (bump_curve (- 3)) (27 / 32) 1 = 5 / 16"
proof -
  have c: "cut_point (jiggle_step (bump_curve (- 3)) 0 bump_cuts) = [0, 27 / 32, 1]"
    by (simp add: bump_step_sharp)
  have e: "segment_error (bump_curve (- 3)) (27 / 32) 1 = 5 / 16"
    by (simp add: bump_curve_def bump_error_def overlap_def)
  have a: "arc_error bump_cuts = [1, 1 / 2]" by (simp add: bump_cuts_def)
  from jiggle_step_frame[of "bump_curve (- 3)" 0 bump_cuts]
  have "arc_error (jiggle_step (bump_curve (- 3)) 0 bump_cuts) ! (0 + 1) = arc_error bump_cuts ! (0 + 1)"
    and "0 < length (arc_error bump_cuts) \<longrightarrow>
      arc_error (jiggle_step (bump_curve (- 3)) 0 bump_cuts) ! 0 =
        segment_error (bump_curve (- 3)) (cut_point (jiggle_step (bump_curve (- 3)) 0 bump_cuts) ! 0)
          (cut_point (jiggle_step (bump_curve (- 3)) 0 bump_cuts) ! (0 + 1))"
    by blast+
  with a c e show ?thesis by simp
qed

text \<open>
  Claim C3, as the code has it. Whenever the cut-point part of \<open>demo_curve\<close> gets as far
  as the refinement, the final array \<open>cut_point[0..n]\<close>, with \<open>n\<close> one more than the
  number of cut ranges, has \<open>cut_point[0] = 0\<close> and \<open>cut_point[n] = 1\<close>: the refinement
  never writes these two entries. The entries between them are moved without a clamp.
  The array is strictly increasing when the cut ranges are ordered and every step the
  refinement takes on this curve has a defined curvature and a step size of at most
  \<open>1\<close>; the code checks neither.
\<close>

theorem demo_cuts_partition:
  assumes "demo_cuts b = Some (Inr (a, passes))"
  shows "length (cut_point a) = length (cut_low a) + 2
     \<and> cut_point a ! 0 = 0 \<and> cut_point a ! (length (cut_low a) + 1) = 1
     \<and> (\<forall>a0. demo_init b = Some (Inr a0) \<and> ranges_ordered a0 \<and> steps_at_most_one b a0 \<longrightarrow>
          sorted_wrt (<) (cut_point a))"
  using demo_cuts_frame[OF assms] demo_cuts_increasing[OF assms] by blast

theorem demo_cuts_partition_witness:
  "demo_init (bump_curve 0) = Some (Inr bump_cuts)
   \<and> ranges_ordered bump_cuts \<and> steps_at_most_one (bump_curve 0) bump_cuts
   \<and> demo_cuts (bump_curve 0) =
     Some (Inr (\<lparr>cut_low = [9 / 16], cut_high = [3 / 4], cut_point = [0, 6232407 / 8388608, 1],
       arc_error = [1, 1 / 2]\<rparr>, 9))
   \<and> [0, 6232407 / 8388608, 1 :: real] ! 0 = 0
   \<and> [0, 6232407 / 8388608, 1 :: real] ! (length [9 / 16 :: real] + 1) = 1
   \<and> sorted_wrt (<) [0, 6232407 / 8388608, 1 :: real]"
proof -
  let ?a = "\<lparr>cut_low = [9 / 16], cut_high = [3 / 4], cut_point = [0, 6232407 / 8388608, 1],
       arc_error = [1, 1 / 2 :: real]\<rparr>"
  have d: "demo_cuts (bump_curve 0) = Some (Inr (?a, 9))"
    by (simp add: bump_demo_cuts bump_jiggle_flat)
  note i = bump_demo_init[of 0] and r = bump_ranges_ordered and s = bump_steps_flat
  from demo_cuts_partition[OF d] i r s
  have "cut_point ?a ! 0 = 0" "cut_point ?a ! (length (cut_low ?a) + 1) = 1"
    "sorted_wrt (<) (cut_point ?a)" by blast+
  with d i r s show ?thesis by simp
qed

theorem demo_cuts_not_increasing_counterexample:
  "demo_cuts (bump_curve (- 4)) =
     Some (Inr (\<lparr>cut_low = [9 / 16], cut_high = [3 / 4], cut_point = [0, 1516977 / 32, 1],
       arc_error = [3 / 2, 1 / 2]\<rparr>, 9))
   \<and> \<not> sorted_wrt (<) [0, 1516977 / 32, 1 :: real]
   \<and> ranges_ordered bump_cuts \<and> \<not> steps_at_most_one (bump_curve (- 4)) bump_cuts"
  by (simp add: bump_demo_cuts bump_jiggle_sharp bump_ranges_ordered bump_steps_sharp)

end
